theory Spec2Isabelle
  imports Main "HOL-Library.Multiset"
begin

section \<open>Core model (uno.py: Color, Rank, Card)\<close>

text \<open>
  The source represents colours and ranks as string constants of the classes
  \<^verbatim>\<open>Color\<close> and \<^verbatim>\<open>Rank\<close>. Both \<^verbatim>\<open>Color.WILD\<close> and \<^verbatim>\<open>Rank.WILD\<close> exist; the
  colour is called \<open>COLOR_WILD\<close> here.
\<close>

datatype color = RED | YELLOW | GREEN | BLUE | COLOR_WILD

datatype rank =
    ZERO | ONE | TWO | THREE | FOUR | FIVE | SIX | SEVEN | EIGHT | NINE
  | SKIP | REVERSE | DRAW_TWO
  | WILD | WILD_DRAW_FOUR

definition STANDARD :: "color list" where
  "STANDARD = [RED, YELLOW, GREEN, BLUE]"

definition NUMBERS :: "rank list" where
  "NUMBERS = [ZERO, ONE, TWO, THREE, FOUR, FIVE, SIX, SEVEN, EIGHT, NINE]"

definition ACTIONS :: "rank list" where
  "ACTIONS = [SKIP, REVERSE, DRAW_TWO]"

definition WILDS :: "rank list" where
  "WILDS = [WILD, WILD_DRAW_FOUR]"

definition is_number :: "rank \<Rightarrow> bool" where
  "is_number r = (r \<in> set NUMBERS)"

definition is_action :: "rank \<Rightarrow> bool" where
  "is_action r = (r \<in> set ACTIONS)"

definition is_wild :: "rank \<Rightarrow> bool" where
  "is_wild r = (r \<in> set WILDS)"

text \<open>
  \<^verbatim>\<open>Card\<close> defines no \<^verbatim>\<open>__eq__\<close>, so Python compares cards by object identity
  (\<^verbatim>\<open>in\<close>, \<^verbatim>\<open>list.remove\<close>). The field \<open>ident\<close> carries that identity: two records
  are equal exactly when they stand for the same object.
\<close>

record card =
  color :: color
  rank :: rank
  ident :: nat

definition matches :: "card \<Rightarrow> card \<Rightarrow> color option \<Rightarrow> bool" where
  "matches c top_card active =
     (if is_wild (rank c) then True
      else if is_wild (rank top_card) then
        (Some (color c) = active \<or> rank c = rank top_card)
      else (color c = color top_card \<or> rank c = rank top_card))"

section \<open>Randomness\<close>

text \<open>
  \<^verbatim>\<open>random.shuffle\<close> is the library's Fisher-Yates loop
  \<^verbatim>\<open>for i in reversed(range(1, len(x))): j = randbelow(i + 1); x[i], x[j] = x[j], x[i]\<close>.
  The generator's state is an explicit list of draws; each call of \<open>randbelow\<close>
  consumes one (an exhausted list yields 0).
\<close>

type_synonym rng = "nat list"

fun randbelow :: "nat \<Rightarrow> rng \<Rightarrow> nat \<times> rng" where
  "randbelow n [] = (0, [])"
| "randbelow n (r # rs) = (r mod n, rs)"

definition swap :: "'a list \<Rightarrow> nat \<Rightarrow> nat \<Rightarrow> 'a list" where
  "swap xs i j = xs[i := xs ! j, j := xs ! i]"

fun shuffle_loop :: "nat \<Rightarrow> 'a list \<Rightarrow> rng \<Rightarrow> 'a list \<times> rng" where
  "shuffle_loop 0 xs g = (xs, g)"
| "shuffle_loop (Suc i) xs g =
     (case randbelow (Suc (Suc i)) g of (j, g') \<Rightarrow> shuffle_loop i (swap xs (Suc i) j) g')"

definition shuffle :: "'a list \<Rightarrow> rng \<Rightarrow> 'a list \<times> rng" where
  "shuffle xs g = shuffle_loop (length xs - 1) xs g"

section \<open>Deck and piles (uno.py: Deck)\<close>

text \<open>Both piles are deques whose left end is the head of the list.\<close>

record deck =
  draw_pile :: "card list"
  discard_pile :: "card list"

datatype error = IndexError | ZeroDivisionError | ValueError | AttributeError

definition faces :: "(color \<times> rank) list" where
  "faces =
     concat (map (\<lambda>c. (c, ZERO) # concat (replicate 2 (map (Pair c) (tl NUMBERS @ ACTIONS))))
                 STANDARD)
     @ concat (replicate 4 [(COLOR_WILD, WILD), (COLOR_WILD, WILD_DRAW_FOUR)])"

definition mk_card :: "nat \<Rightarrow> color \<times> rank \<Rightarrow> card" where
  "mk_card i f = \<lparr>color = fst f, rank = snd f, ident = i\<rparr>"

definition build_cards :: "card list" where
  "build_cards = map2 mk_card [0 ..< length faces] faces"

definition build :: "rng \<Rightarrow> deck \<times> rng" where
  "build g = (case shuffle build_cards g of (cards, g') \<Rightarrow>
                (\<lparr>draw_pile = cards, discard_pile = []\<rparr>, g'))"

definition reshuffle_from_discard :: "deck \<Rightarrow> rng \<Rightarrow> deck \<times> rng" where
  "reshuffle_from_discard d g =
     (case discard_pile d of
        [] \<Rightarrow> (d, g)
      | topc # rest \<Rightarrow>
          (case shuffle rest g of (rest', g') \<Rightarrow>
             (\<lparr>draw_pile = draw_pile d @ rest', discard_pile = [topc]\<rparr>, g')))"

definition draw :: "deck \<Rightarrow> rng \<Rightarrow> card option \<times> deck \<times> rng" where
  "draw d g =
     (case (if draw_pile d = [] then reshuffle_from_discard d g else (d, g)) of
        (d1, g1) \<Rightarrow>
          (case draw_pile d1 of
             [] \<Rightarrow> (None, d1, g1)
           | c # cs \<Rightarrow> (Some c, d1\<lparr>draw_pile := cs\<rparr>, g1)))"

definition discard :: "deck \<Rightarrow> card \<Rightarrow> deck" where
  "discard d c = d\<lparr>discard_pile := c # discard_pile d\<rparr>"

definition top_discard :: "deck \<Rightarrow> error + card" where
  "top_discard d = (case discard_pile d of [] \<Rightarrow> Inl IndexError | c # _ \<Rightarrow> Inr c)"

text \<open>
  \<^verbatim>\<open>start_discard_non_wild\<close> is a \<^verbatim>\<open>while True\<close> loop; the first argument bounds
  the number of iterations, and \<open>None\<close> means the bound was reached. When the deck
  supplies no card the source discards \<^verbatim>\<open>None\<close> and then reads \<^verbatim>\<open>c.rank\<close>, which
  raises \<^verbatim>\<open>AttributeError\<close>.
\<close>

fun start_discard_non_wild :: "nat \<Rightarrow> deck \<Rightarrow> rng \<Rightarrow> (error + deck \<times> rng) option" where
  "start_discard_non_wild 0 d g = None"
| "start_discard_non_wild (Suc n) d g =
     (case draw d g of
        (None, d1, g1) \<Rightarrow> Some (Inl AttributeError)
      | (Some c, d1, g1) \<Rightarrow>
          (if \<not> is_wild (rank c) then Some (Inr (discard d1 c, g1))
           else start_discard_non_wild n (discard d1 c) g1))"

section \<open>Players (uno.py: Player, HumanPlayer, AggressiveAI)\<close>

datatype player_kind = HumanPlayer | AggressiveAI

record player =
  name :: string
  hand :: "card list"
  kind :: player_kind

text \<open>
  \<^verbatim>\<open>Player.draw\<close>: \<^verbatim>\<open>count\<close> iterations, each appending the card drawn if there is
  one. A \<^verbatim>\<open>Card\<close> object is always truthy, so \<^verbatim>\<open>if c\<close> tests for \<^verbatim>\<open>None\<close> only.
\<close>

fun player_draw :: "nat \<Rightarrow> card list \<Rightarrow> deck \<Rightarrow> rng \<Rightarrow> card list \<times> deck \<times> rng" where
  "player_draw 0 h d g = (h, d, g)"
| "player_draw (Suc n) h d g =
     (case draw d g of
        (None, d1, g1) \<Rightarrow> player_draw n h d1 g1
      | (Some c, d1, g1) \<Rightarrow> player_draw n (h @ [c]) d1 g1)"

definition has_playable :: "card list \<Rightarrow> card \<Rightarrow> color option \<Rightarrow> bool" where
  "has_playable h topc active = list_ex (\<lambda>c. matches c topc active) h"

definition count_color :: "card list \<Rightarrow> color \<Rightarrow> nat" where
  "count_color h col = length (filter (\<lambda>c. color c = col) h)"

definition has_color :: "card list \<Rightarrow> color option \<Rightarrow> bool" where
  "has_color h col = list_ex (\<lambda>c. \<not> is_wild (rank c) \<and> Some (color c) = col) h"

section \<open>Moves and state (uno.py: Move, GameState)\<close>

datatype move = PLAY card "color option" bool | DRAW | INVALID

text \<open>
  \<open>rng\<close> is the state of the module-level generator of \<^verbatim>\<open>random\<close>. Players are
  referred to by their position in \<open>players\<close>: the source passes references to the
  objects of that list, which is never reordered.
\<close>

record game_state =
  deck :: deck
  players :: "player list"
  current_index :: int
  direction :: int
  active_color :: "color option"
  pending_draw :: int
  no_mercy :: bool
  rng :: rng

text \<open>Python list indexing: a negative index counts from the end.\<close>

definition py_index :: "nat \<Rightarrow> int \<Rightarrow> nat option" where
  "py_index n i =
     (if 0 \<le> i \<and> i < int n then Some (nat i)
      else if - int n \<le> i \<and> i < 0 then Some (nat (int n + i))
      else None)"

definition current :: "game_state \<Rightarrow> error + nat" where
  "current s =
     (case py_index (length (players s)) (current_index s) of
        None \<Rightarrow> Inl IndexError
      | Some p \<Rightarrow> Inr p)"

definition next_player :: "game_state \<Rightarrow> error + nat" where
  "next_player s =
     (let n = length (players s) in
      if n = 0 then Inl ZeroDivisionError
      else Inr (nat ((current_index s + direction s) mod int n)))"

definition advance_turn :: "int \<Rightarrow> game_state \<Rightarrow> error + game_state" where
  "advance_turn steps s =
     (let n = length (players s) in
      if n = 0 then Inl ZeroDivisionError
      else Inr (s\<lparr>current_index := (current_index s + steps * direction s) mod int n\<rparr>))"

definition reverse :: "game_state \<Rightarrow> game_state" where
  "reverse s = s\<lparr>direction := direction s * (- 1)\<rparr>"

definition hand_of :: "nat \<Rightarrow> game_state \<Rightarrow> card list" where
  "hand_of p s = hand (players s ! p)"

definition set_hand :: "nat \<Rightarrow> card list \<Rightarrow> game_state \<Rightarrow> game_state" where
  "set_hand p h s = s\<lparr>players := (players s)[p := (players s ! p)\<lparr>hand := h\<rparr>]\<rparr>"

text \<open>\<^verbatim>\<open>player.draw(state.deck, count)\<close> for the player at position \<open>p\<close>.\<close>

definition draw_cards :: "nat \<Rightarrow> int \<Rightarrow> game_state \<Rightarrow> game_state" where
  "draw_cards p cnt s =
     (case player_draw (nat cnt) (hand_of p s) (deck s) (rng s) of
        (h, d, g) \<Rightarrow> (set_hand p h s)\<lparr>deck := d, rng := g\<rparr>)"

section \<open>Game engine (uno.py: Game)\<close>

definition check_win :: "nat \<Rightarrow> game_state \<Rightarrow> bool" where
  "check_win p s = (hand_of p s = [])"

text \<open>
  \<^verbatim>\<open>max(counts.items(), key=...)\<close> keeps the first entry whose count is maximal, in
  the dictionary's insertion order.
\<close>

definition choose_color_auto :: "card list \<Rightarrow> color" where
  "choose_color_auto h =
     (let counts = map (\<lambda>c. (c, count_color h c)) [RED, YELLOW, GREEN, BLUE] in
      fst (fold (\<lambda>kv best. if snd best < snd kv then kv else best) (tl counts) (hd counts)))"

definition player_had_active_color_before_wdf :: "nat \<Rightarrow> game_state \<Rightarrow> bool" where
  "player_had_active_color_before_wdf p s =
     (let active = active_color s in
      list_ex (\<lambda>c. \<not> is_wild (rank c) \<and> Some (color c) = active) (hand_of p s))"

definition apply_initial_effect :: "card \<Rightarrow> game_state \<Rightarrow> error + game_state" where
  "apply_initial_effect start s =
     (if rank start = SKIP then advance_turn 1 s
      else if rank start = REVERSE then Inr (reverse s)
      else if rank start = DRAW_TWO then Inr (s\<lparr>pending_draw := pending_draw s + 2\<rparr>)
      else Inr s)"

text \<open>
  \<^verbatim>\<open>_play_card\<close>. \<^verbatim>\<open>player.hand.remove(card)\<close> raises \<^verbatim>\<open>ValueError\<close> when the card
  is not in the hand.
\<close>

definition play_card ::
  "nat \<Rightarrow> card \<Rightarrow> color option \<Rightarrow> game_state \<Rightarrow> bool \<Rightarrow> error + game_state" where
  "play_card p c chosen_color s challenge_flag =
     (if c \<notin> set (hand_of p s) then Inl ValueError
      else
        let s1 = (set_hand p (remove1 c (hand_of p s)) s)\<lparr>deck := discard (deck s) c\<rparr>;
            s2 = (if is_wild (rank c) then s1\<lparr>active_color := chosen_color\<rparr> else s1)
        in
          if rank c = SKIP then advance_turn 2 s2
          else if rank c = REVERSE then
            (let s3 = reverse s2 in
             if length (players s3) = 2 then advance_turn 2 s3 else advance_turn 1 s3)
          else if rank c = DRAW_TWO then
            advance_turn 1 (s2\<lparr>pending_draw := pending_draw s2 + 2\<rparr>)
          else if rank c = WILD then advance_turn 1 s2
          else if rank c = WILD_DRAW_FOUR then
            (case next_player s2 of
               Inl e \<Rightarrow> Inl e
             | Inr opponent \<Rightarrow>
                 let illegal = player_had_active_color_before_wdf p s2;
                     opponent_challenges =
                       (kind (players s2 ! opponent) = AggressiveAI \<or> challenge_flag)
                 in
                   if opponent_challenges then
                     (if illegal then advance_turn 1 (draw_cards p 4 s2)
                      else advance_turn 1 (draw_cards opponent 6 s2))
                   else advance_turn 1 (s2\<lparr>pending_draw := pending_draw s2 + 4\<rparr>))
          else advance_turn 1 s2)"

text \<open>
  One iteration of the \<^verbatim>\<open>while True\<close> loop of \<^verbatim>\<open>Game.start\<close>, for the move the
  current player's \<^verbatim>\<open>choose_move\<close> returned. The boolean says whether the loop
  was left by \<^verbatim>\<open>break\<close> (the player who moved has an empty hand).
\<close>

definition continue :: "error + game_state \<Rightarrow> error + bool \<times> game_state" where
  "continue r = (case r of Inl e \<Rightarrow> Inl e | Inr s \<Rightarrow> Inr (False, s))"

definition win_or_continue :: "nat \<Rightarrow> error + game_state \<Rightarrow> error + bool \<times> game_state" where
  "win_or_continue p r = (case r of Inl e \<Rightarrow> Inl e | Inr s \<Rightarrow> Inr (check_win p s, s))"

definition turn_invalid :: "nat \<Rightarrow> game_state \<Rightarrow> error + bool \<times> game_state" where
  "turn_invalid p s = continue (advance_turn 1 (draw_cards p 1 s))"

definition turn_draw :: "nat \<Rightarrow> game_state \<Rightarrow> error + bool \<times> game_state" where
  "turn_draw p s =
     (if pending_draw s > 0 then
        win_or_continue p (Inr ((draw_cards p (pending_draw s) s)\<lparr>pending_draw := 0\<rparr>))
      else
        (case draw (deck s) (rng s) of
           (drawn, d1, g1) \<Rightarrow>
             let s1 = s\<lparr>deck := d1, rng := g1\<rparr> in
             (case drawn of
                None \<Rightarrow> win_or_continue p (advance_turn 1 s1)
              | Some c \<Rightarrow>
                  (case top_discard (deck s1) of
                     Inl e \<Rightarrow> Inl e
                   | Inr topc \<Rightarrow>
                       let s2 = set_hand p (hand_of p s1 @ [c]) s1 in
                       if matches c topc (active_color s1) \<and> no_mercy s1 then
                         win_or_continue p
                           (play_card p c
                              (if is_wild (rank c) then Some (choose_color_auto (hand_of p s2))
                               else active_color s2)
                              s2 False)
                       else win_or_continue p (advance_turn 1 s2)))))"

definition turn_play ::
  "nat \<Rightarrow> card \<Rightarrow> color option \<Rightarrow> bool \<Rightarrow> game_state \<Rightarrow> error + bool \<times> game_state" where
  "turn_play p c chosen_color challenge s =
     (if c \<notin> set (hand_of p s) then continue (advance_turn 1 s)
      else
        (case top_discard (deck s) of
           Inl e \<Rightarrow> Inl e
         | Inr topc \<Rightarrow>
             if \<not> matches c topc (active_color s) then continue (advance_turn 1 s)
             else
               win_or_continue p
                 (play_card p c (if is_wild (rank c) then chosen_color else active_color s)
                    s challenge)))"

definition turn :: "move \<Rightarrow> game_state \<Rightarrow> error + bool \<times> game_state" where
  "turn m s =
     (case current s of
        Inl e \<Rightarrow> Inl e
      | Inr p \<Rightarrow>
          (case m of
             INVALID \<Rightarrow> turn_invalid p s
           | DRAW \<Rightarrow> turn_draw p s
           | PLAY c chosen_color challenge \<Rightarrow> turn_play p c chosen_color challenge s))"

section \<open>Decision capabilities (uno.py: HumanPlayer.choose_move, AggressiveAI.choose_move)\<close>

text \<open>
  \<^verbatim>\<open>HumanPlayer.choose_move\<close> for the player at position \<open>p\<close>. What the player types
  is an argument: \<open>choice\<close> is the number \<^verbatim>\<open>_read_int\<close> returns (it only returns numbers
  from 0 to the size of the hand) and \<open>asked\<close> the colour \<^verbatim>\<open>_ask_color\<close> returns, which
  is read only for a wild card.
\<close>

definition human_choose_move :: "nat \<Rightarrow> game_state \<Rightarrow> int \<Rightarrow> color \<Rightarrow> error + move" where
  "human_choose_move p s choice asked =
     (case top_discard (deck s) of
        Inl e \<Rightarrow> Inl e
      | Inr topc \<Rightarrow>
          if choice = 0 then Inr DRAW
          else
            (case py_index (length (hand_of p s)) (choice - 1) of
               None \<Rightarrow> Inl IndexError
             | Some i \<Rightarrow>
                 let chosen = hand_of p s ! i in
                 if \<not> matches chosen topc (active_color s) then Inr INVALID
                 else
                   let chosen_color =
                         (if is_wild (rank chosen) then Some asked else active_color s)
                   in
                     if pending_draw s > 0
                        \<and> rank chosen \<notin> {DRAW_TWO, WILD_DRAW_FOUR}
                     then Inr INVALID
                     else Inr (PLAY chosen chosen_color False)))"

definition best_stack_card :: "card list \<Rightarrow> card option" where
  "best_stack_card h = find (\<lambda>c. rank c \<in> {DRAW_TWO, WILD_DRAW_FOUR}) h"

definition best_color_choice :: "card list \<Rightarrow> color" where
  "best_color_choice h =
     (let counts = map (\<lambda>c. (c, count_color h c)) [RED, YELLOW, GREEN, BLUE] in
      fst (fold (\<lambda>kv best. if snd best < snd kv then kv else best) (tl counts) (hd counts)))"

text \<open>
  The \<^verbatim>\<open>for c in self.hand\<close> loop of \<^verbatim>\<open>AggressiveAI.choose_move\<close> with what follows
  it: the first argument is the rest of the hand still to be visited, \<open>best\<close> the
  loop's variable of that name.
\<close>

fun ai_scan ::
  "card list \<Rightarrow> card list \<Rightarrow> card \<Rightarrow> color option \<Rightarrow> card option \<Rightarrow> move" where
  "ai_scan [] h topc active best =
     (case best of
        Some b \<Rightarrow>
          PLAY b (if is_wild (rank b) then Some (best_color_choice h) else active) False
      | None \<Rightarrow> DRAW)"
| "ai_scan (c # cs) h topc active best =
     (if \<not> matches c topc active then ai_scan cs h topc active best
      else if rank c = WILD_DRAW_FOUR then
        (let legal_wdf = \<not> has_color h active in
         if legal_wdf then PLAY c (Some (best_color_choice h)) True
         else ai_scan cs h topc active (if best = None then Some c else best))
      else if rank c \<in> {DRAW_TWO, SKIP, REVERSE} then PLAY c active False
      else ai_scan cs h topc active (if best = None then Some c else best))"

definition ai_choose_move :: "nat \<Rightarrow> game_state \<Rightarrow> error + move" where
  "ai_choose_move p s =
     (case top_discard (deck s) of
        Inl e \<Rightarrow> Inl e
      | Inr topc \<Rightarrow>
          if pending_draw s > 0 then
            (case best_stack_card (hand_of p s) of
               Some stack \<Rightarrow>
                 Inr (PLAY stack
                        (if is_wild (rank stack) then Some (best_color_choice (hand_of p s))
                         else active_color s)
                        True)
             | None \<Rightarrow> Inr DRAW)
          else Inr (ai_scan (hand_of p s) (hand_of p s) topc (active_color s) None))"

section \<open>Set-up before the first turn (uno.py: Game.__init__, Game.start)\<close>

record game =
  player_count :: int
  game_no_mercy :: bool

definition game_init :: "int \<Rightarrow> bool \<Rightarrow> game" where
  "game_init pc nm = \<lparr>player_count = max 2 pc, game_no_mercy = nm\<rparr>"

function string_of_nat :: "nat \<Rightarrow> string" where
  "string_of_nat n =
     (if n < 10 then [char_of (48 + n)]
      else string_of_nat (n div 10) @ [char_of (48 + n mod 10)])"
  by pat_completeness auto
termination
  by (relation "measure id") auto

definition new_players :: "int \<Rightarrow> player list" where
  "new_players pc =
     \<lparr>name = ''You'', hand = [], kind = HumanPlayer\<rparr>
     # map (\<lambda>i. \<lparr>name = ''AI-'' @ string_of_nat i, hand = [], kind = AggressiveAI\<rparr>)
           [1 ..< nat pc]"

definition new_state :: "deck \<Rightarrow> player list \<Rightarrow> bool \<Rightarrow> rng \<Rightarrow> game_state" where
  "new_state d ps nm g =
     \<lparr>deck = d, players = ps, current_index = 0, direction = 1, active_color = None,
      pending_draw = 0, no_mercy = nm, rng = g\<rparr>"

definition deal :: "game_state \<Rightarrow> game_state" where
  "deal s = fold (\<lambda>p. draw_cards p 7) [0 ..< length (players s)] s"

text \<open>
  Everything \<^verbatim>\<open>Game.start\<close> does before its loop. The first argument bounds the
  iterations of \<open>start_discard_non_wild\<close>; \<open>None\<close> means that loop did not finish
  within the bound.
\<close>

definition start_game :: "nat \<Rightarrow> game \<Rightarrow> rng \<Rightarrow> (error + game_state) option" where
  "start_game fuel gm g =
     (case build g of
        (d, g1) \<Rightarrow>
          let s1 = deal (new_state d (new_players (player_count gm)) (game_no_mercy gm) g1) in
          (case start_discard_non_wild fuel (deck s1) (rng s1) of
             None \<Rightarrow> None
           | Some (Inl e) \<Rightarrow> Some (Inl e)
           | Some (Inr (d2, g2)) \<Rightarrow>
               let s2 = s1\<lparr>deck := d2, rng := g2\<rparr> in
               (case top_discard (deck s2) of
                  Inl e \<Rightarrow> Some (Inl e)
                | Inr topc \<Rightarrow>
                    Some (apply_initial_effect topc (s2\<lparr>active_color := Some (color topc)\<rparr>)))))"

text \<open>
  The states the engine can be in at the head of its loop: the state after set-up, and
  the state after an iteration that did not leave the loop, for whatever move the
  decision capability returned. The boolean is the loop's exit flag.
\<close>

inductive reachable :: "bool \<times> game_state \<Rightarrow> bool" where
  start: "start_game fuel (game_init pc nm) g = Some (Inr s) \<Longrightarrow> reachable (False, s)"
| step: "reachable (False, s) \<Longrightarrow> turn m s = Inr r \<Longrightarrow> reachable r"

text \<open>All cards of a state: draw pile, discard pile and every hand.\<close>

definition all_hands :: "player list \<Rightarrow> card multiset" where
  "all_hands ps = mset (concat (map hand ps))"

definition deck_cards :: "deck \<Rightarrow> card multiset" where
  "deck_cards d = mset (draw_pile d) + mset (discard_pile d)"

definition all_cards :: "game_state \<Rightarrow> card multiset" where
  "all_cards s = deck_cards (deck s) + all_hands (players s)"

text \<open>The number of cards \<open>draw\<close> can still supply without any discard in between.\<close>

definition available :: "deck \<Rightarrow> nat" where
  "available d = length (draw_pile d) + (length (discard_pile d) - 1)"

text \<open>The state of \<open>play_card\<close> once the card lies on the discard pile.\<close>

definition placed :: "nat \<Rightarrow> card \<Rightarrow> color option \<Rightarrow> game_state \<Rightarrow> game_state" where
  "placed p c chosen_color s =
     (let s1 = (set_hand p (remove1 c (hand_of p s)) s)\<lparr>deck := discard (deck s) c\<rparr>
      in if is_wild (rank c) then s1\<lparr>active_color := chosen_color\<rparr> else s1)"

section \<open>Sample positions\<close>

text \<open>
  A two-player table as \<^verbatim>\<open>Game(player_count=2)\<close> seats it: the human at index 0, who
  is to move, and one automated opponent; the direction is +1 and the active colour
  is red. The arguments are the draw pile, the discard pile, the two hands and the
  pending draw.
\<close>

definition table ::
  "card list \<Rightarrow> card list \<Rightarrow> card list \<Rightarrow> card list \<Rightarrow> int \<Rightarrow> game_state" where
  "table dp disc h0 h1 pend =
     \<lparr>deck = \<lparr>draw_pile = dp, discard_pile = disc\<rparr>,
      players = [\<lparr>name = ''You'', hand = h0, kind = HumanPlayer\<rparr>,
                 \<lparr>name = ''AI-1'', hand = h1, kind = AggressiveAI\<rparr>],
      current_index = 0, direction = 1, active_color = Some RED,
      pending_draw = pend, no_mercy = True, rng = []\<rparr>"

definition R3 :: card where "R3 = mk_card 3 (RED, THREE)"
definition R5 :: card where "R5 = mk_card 5 (RED, FIVE)"
definition R9 :: card where "R9 = mk_card 9 (RED, NINE)"
definition RSKIP :: card where "RSKIP = mk_card 10 (RED, SKIP)"
definition RREV :: card where "RREV = mk_card 11 (RED, REVERSE)"
definition Y7 :: card where "Y7 = mk_card 32 (YELLOW, SEVEN)"
definition Y8 :: card where "Y8 = mk_card 33 (YELLOW, EIGHT)"
definition G1 :: card where "G1 = mk_card 51 (GREEN, ONE)"
definition G2 :: card where "G2 = mk_card 52 (GREEN, TWO)"
definition G9 :: card where "G9 = mk_card 59 (GREEN, NINE)"
definition B2 :: card where "B2 = mk_card 77 (BLUE, TWO)"
definition B4 :: card where "B4 = mk_card 79 (BLUE, FOUR)"
definition B6 :: card where "B6 = mk_card 81 (BLUE, SIX)"
definition W1 :: card where "W1 = mk_card 100 (COLOR_WILD, WILD)"
definition WDF1 :: card where "WDF1 = mk_card 101 (COLOR_WILD, WILD_DRAW_FOUR)"

text \<open>
  The deck's composition in the words of the specification: for each standard colour
  one 0 and two each of 1 to 9, SKIP, REVERSE and DRAW_TWO; four WILD and four
  WILD_DRAW_FOUR, which carry the wild colour marker; nothing else.
\<close>

definition copies :: "color \<Rightarrow> rank \<Rightarrow> nat" where
  "copies c r =
     (if c \<in> {RED, YELLOW, GREEN, BLUE} then
        (if r = ZERO then 1
         else if r \<in> {ONE, TWO, THREE, FOUR, FIVE, SIX, SEVEN, EIGHT, NINE,
                        SKIP, REVERSE, DRAW_TWO} then 2
         else 0)
      else if r \<in> {WILD, WILD_DRAW_FOUR} then 4
      else 0)"

definition face :: "card \<Rightarrow> color \<times> rank" where
  "face c = (color c, rank c)"

text \<open>
  The position \<^verbatim>\<open>Game(player_count=2, no_mercy=True).start()\<close> reaches before its first
  turn when every draw of the generator is 0: the shuffle then rotates the deck by
  one card, cards 1 to 14 are dealt and card 15, a red 3, opens the discard pile.
\<close>

definition first_position :: game_state where
  "first_position =
     \<lparr>deck = \<lparr>draw_pile = map (nth build_cards) ([16 ..< 108] @ [0]),
               discard_pile = [build_cards ! 15]\<rparr>,
      players = [\<lparr>name = ''You'', hand = map (nth build_cards) [1 ..< 8], kind = HumanPlayer\<rparr>,
                 \<lparr>name = ''AI-1'', hand = map (nth build_cards) [8 ..< 15],
                  kind = AggressiveAI\<rparr>],
      current_index = 0, direction = 1, active_color = Some RED,
      pending_draw = 0, no_mercy = True, rng = []\<rparr>"

text \<open>
  The loop of \<^verbatim>\<open>Game.start\<close> for the moves the players return, one per iteration,
  until a player has won or the list is used up.
\<close>

fun run :: "move list \<Rightarrow> game_state \<Rightarrow> error + bool \<times> game_state" where
  "run [] s = Inr (False, s)"
| "run (m # ms) s =
     (case turn m s of
        Inl e \<Rightarrow> Inl e
      | Inr (over, s') \<Rightarrow> if over then Inr (True, s') else run ms s')"

text \<open>
  Positions of the two-player game, written with the numbers of the cards in the
  order \<open>build_cards\<close> creates them: draw pile, discard pile, the human's hand, the
  automated player's hand, \<open>current_index\<close> and \<open>pending_draw\<close>. The direction is +1,
  the active colour red, and the generator has no draws left.
\<close>

definition seat :: "nat list \<Rightarrow> nat list \<Rightarrow> player list" where
  "seat h0 h1 =
     [\<lparr>name = ''You'', hand = map (nth build_cards) h0, kind = HumanPlayer\<rparr>,
      \<lparr>name = ''AI-1'', hand = map (nth build_cards) h1, kind = AggressiveAI\<rparr>]"

definition position ::
  "nat list \<Rightarrow> nat list \<Rightarrow> nat list \<Rightarrow> nat list \<Rightarrow> int \<Rightarrow> int \<Rightarrow> game_state" where
  "position dp disc h0 h1 idx pend =
     \<lparr>deck = \<lparr>draw_pile = map (nth build_cards) dp,
               discard_pile = map (nth build_cards) disc\<rparr>,
      players = seat h0 h1,
      current_index = idx, direction = 1, active_color = Some RED,
      pending_draw = pend, no_mercy = True, rng = []\<rparr>"

definition evens :: "nat list" where
  "evens = map (\<lambda>k. 16 + 2 * k) [0 ..< 46]"

definition odds :: "nat list" where
  "odds = map (\<lambda>k. 17 + 2 * k) [0 ..< 46]"

text \<open>
  From \<open>first_position\<close>, 93 INVALID moves in a row (each draws one penalty card) empty
  the draw pile: the human holds cards 1 to 7, the even cards from 16 and card 0, the
  automated player cards 8 to 14 and the odd cards from 17, among them the four
  Wild Draw Fours; card 15, the red 3, is the only discard and the automated player
  is to move.
\<close>

definition exhausted_position :: game_state where
  "exhausted_position = position [] [15] ([1 ..< 8] @ evens @ [0]) ([8 ..< 15] @ odds) 1 0"

text \<open>
  From \<open>first_position\<close> the players' own \<open>choose_move\<close> leads through these positions:
  the human picks the first card of the hand, the red 1; the automated player then
  plays its red SKIP, its red REVERSE (a skip with two players) and its red DRAW_TWO.
  In \<open>pending_position\<close> the pending draw is 2, the direction is -1 and the human, who
  holds no DRAW_TWO and no Wild Draw Four, is to move.
\<close>

definition after_red_one :: game_state where
  "after_red_one = position ([16 ..< 108] @ [0]) [1, 15] [2 ..< 8] [8 ..< 15] 1 0"

definition after_skip :: game_state where
  "after_skip =
     position ([16 ..< 108] @ [0]) [10, 1, 15] [2 ..< 8] [8, 9, 11, 12, 13, 14] 1 0"

definition after_reverse :: game_state where
  "after_reverse =
     (position ([16 ..< 108] @ [0]) [11, 10, 1, 15] [2 ..< 8] [8, 9, 12, 13, 14] 1 0)
       \<lparr>direction := - 1\<rparr>"

definition pending_position :: game_state where
  "pending_position =
     (position ([16 ..< 108] @ [0]) [12, 11, 10, 1, 15] [2 ..< 8] [8, 9, 13, 14] 0 2)
       \<lparr>direction := - 1\<rparr>"

text \<open>
  Generator draws under which the shuffle leaves card 101, a Wild Draw Four, on top of
  the deck, followed by cards 1 to 100: the human is dealt the Wild Draw Four and the
  red 1 to 6, the automated player cards 7 to 13, and card 14, the red 2, opens the
  discard pile.
\<close>

definition wdf_draws :: rng where
  "wdf_draws = replicate 7 0 @ rev [1 ..< 101]"

definition wdf_position :: game_state where
  "wdf_position =
     position ([15 ..< 101] @ [102 ..< 108] @ [0]) [14] (101 # [1 ..< 7]) [7 ..< 14] 0 0"

section \<open>Properties of the deck\<close>

lemmas sample_cards =
  R3_def R5_def R9_def RSKIP_def RREV_def Y7_def Y8_def G1_def G2_def G9_def
  B2_def B4_def B6_def W1_def WDF1_def mk_card_def

lemma length_swap: "length (swap xs i j) = length xs"
  by (simp add: swap_def)

lemma mset_swap_list: "i < length xs \<Longrightarrow> j < length xs \<Longrightarrow> mset (swap xs i j) = mset xs"
  unfolding swap_def by (simp add: mset_swap)

lemma randbelow_less: "0 < n \<Longrightarrow> fst (randbelow n g) < n"
  by (cases g) auto

lemma shuffle_loop_mset: "i < length xs \<Longrightarrow> mset (fst (shuffle_loop i xs g)) = mset xs"
proof (induction i arbitrary: xs g)
  case 0 then show ?case by simp
next
  case (Suc i)
  obtain j g' where r: "randbelow (Suc (Suc i)) g = (j, g')" by (cases "randbelow (Suc (Suc i)) g")
  have "j < Suc (Suc i)" using randbelow_less[of "Suc (Suc i)" g] r by simp
  then have j: "j < length xs" using Suc.prems by simp
  show ?case using Suc.IH[of "swap xs (Suc i) j" g'] Suc.prems j r
    by (simp add: mset_swap_list length_swap)
qed

lemma shuffle_mset: "mset (fst (shuffle xs g)) = mset xs"
proof (cases xs)
  case Nil then show ?thesis by (simp add: shuffle_def)
next
  case (Cons a as)
  then show ?thesis unfolding shuffle_def by (intro shuffle_loop_mset) simp
qed

lemma shuffle_length: "length (fst (shuffle xs g)) = length xs"
  using shuffle_mset[of xs g] by (metis size_mset)

lemma shuffle_Nil: "shuffle [] g = ([], g)"
  by (simp add: shuffle_def)

lemma draw_nonempty:
  "draw_pile d = c # cs \<Longrightarrow> draw d g = (Some c, d\<lparr>draw_pile := cs\<rparr>, g)"
  by (simp add: draw_def)

lemma draw_exhausted:
  "draw_pile d = [] \<Longrightarrow> length (discard_pile d) \<le> 1 \<Longrightarrow> draw d g = (None, d, g)"
  by (cases "discard_pile d")
     (auto simp: draw_def reshuffle_from_discard_def shuffle_Nil)

lemma draw_recycle:
  assumes "draw_pile d = []" "discard_pile d = t # r # rs"
  shows "\<exists>c cs g'. draw d g = (Some c, \<lparr>draw_pile = cs, discard_pile = [t]\<rparr>, g')
            \<and> mset (c # cs) = mset (r # rs)"
proof -
  obtain xs g' where sh: "shuffle (r # rs) g = (xs, g')" by (cases "shuffle (r # rs) g")
  have m: "mset xs = mset (r # rs)" using shuffle_mset[of "r # rs" g] sh by simp
  then have "xs \<noteq> []" by auto
  then obtain c cs where xs: "xs = c # cs" by (cases xs) auto
  have "draw d g = (Some c, \<lparr>draw_pile = cs, discard_pile = [t]\<rparr>, g')"
    using assms sh xs by (simp add: draw_def reshuffle_from_discard_def)
  then show ?thesis using m xs by auto
qed

lemma draw_None_iff:
  "fst (draw d g) = None \<longleftrightarrow> draw_pile d = [] \<and> length (discard_pile d) \<le> 1"
proof (cases "draw_pile d")
  case (Cons c cs)
  then show ?thesis by (simp add: draw_nonempty)
next
  case Nil
  show ?thesis
  proof (cases "discard_pile d")
    case Nil2: Nil
    then show ?thesis using Nil by (simp add: draw_exhausted)
  next
    case (Cons t ts)
    show ?thesis
    proof (cases ts)
      case Nil3: Nil
      then show ?thesis using Nil Cons by (simp add: draw_exhausted)
    next
      case (Cons r rs)
      then show ?thesis using draw_recycle[OF Nil, of t r rs g] \<open>discard_pile d = t # ts\<close> Nil
        by auto
    qed
  qed
qed

text \<open>What one successful draw does to the deck.\<close>

lemma draw_Some:
  assumes "draw d g = (Some c, d', g')"
  shows "deck_cards d = add_mset c (deck_cards d')"
    and "available d = Suc (available d')"
    and "top_discard d' = top_discard d"
proof -
  have "deck_cards d = add_mset c (deck_cards d') \<and> available d = Suc (available d')
        \<and> top_discard d' = top_discard d"
  proof (cases "draw_pile d")
    case (Cons x xs)
    then show ?thesis using assms
      by (auto simp: draw_nonempty deck_cards_def available_def top_discard_def)
  next
    case Nil
    show ?thesis
    proof (cases "discard_pile d")
      case Nil2: Nil
      then show ?thesis using Nil assms by (simp add: draw_exhausted)
    next
      case (Cons t ts)
      show ?thesis
      proof (cases ts)
        case Nil3: Nil
        then show ?thesis using Nil Cons assms by (simp add: draw_exhausted)
      next
        case Cons2: (Cons r rs)
        obtain c2 cs g2 where
          dr: "draw d g = (Some c2, \<lparr>draw_pile = cs, discard_pile = [t]\<rparr>, g2)"
          and m: "mset (c2 # cs) = mset (r # rs)"
          using draw_recycle[OF Nil, of t r rs g] Cons Cons2 by auto
        have l: "length (c2 # cs) = length (r # rs)" using m by (metis size_mset)
        show ?thesis using dr m l assms Nil Cons Cons2
          by (auto simp: deck_cards_def available_def top_discard_def)
      qed
    qed
  qed
  then show "deck_cards d = add_mset c (deck_cards d')"
    and "available d = Suc (available d')"
    and "top_discard d' = top_discard d" by auto
qed

lemma draw_None:
  assumes "draw d g = (None, d', g')"
  shows "d' = d" and "g' = g" and "available d = 0"
proof -
  have "draw_pile d = [] \<and> length (discard_pile d) \<le> 1"
    using draw_None_iff[of d g] assms by simp
  then show "d' = d" and "g' = g" and "available d = 0"
    using assms by (auto simp: draw_exhausted available_def)
qed

section \<open>Properties of drawing into a hand\<close>

lemma player_draw_spec:
  "player_draw n h d g = (h', d', g') \<Longrightarrow>
     \<exists>drawn. h' = h @ drawn \<and> length drawn = min n (available d)
       \<and> deck_cards d = mset drawn + deck_cards d'
       \<and> available d' = available d - length drawn
       \<and> top_discard d' = top_discard d"
proof (induction n arbitrary: h d g)
  case 0
  then show ?case by simp
next
  case (Suc n)
  obtain r d1 g1 where dr: "draw d g = (r, d1, g1)" by (cases "draw d g")
  show ?case
  proof (cases r)
    case None
    have same: "d1 = d" "g1 = g" "available d = 0" using draw_None dr None by blast+
    have "player_draw n h d g = (h', d', g')" using Suc.prems dr None same by simp
    from Suc.IH[OF this] show ?thesis using same by simp
  next
    case (Some c)
    have st: "deck_cards d = add_mset c (deck_cards d1)" "available d = Suc (available d1)"
      "top_discard d1 = top_discard d" using draw_Some dr Some by blast+
    have "player_draw n (h @ [c]) d1 g1 = (h', d', g')" using Suc.prems dr Some by simp
    from Suc.IH[OF this] obtain drawn where
      IH: "h' = (h @ [c]) @ drawn" "length drawn = min n (available d1)"
        "deck_cards d1 = mset drawn + deck_cards d'"
        "available d' = available d1 - length drawn"
        "top_discard d' = top_discard d1" by blast
    show ?thesis
      by (rule exI[of _ "c # drawn"]) (use IH st in simp)
  qed
qed

lemma all_hands_update:
  "p < length ps \<Longrightarrow>
     all_hands (ps[p := (ps ! p)\<lparr>hand := h\<rparr>]) + mset (hand (ps ! p)) = all_hands ps + mset h"
proof (induction ps arbitrary: p)
  case Nil
  then show ?case by simp
next
  case (Cons a ps)
  show ?case
  proof (cases p)
    case 0
    then show ?thesis by (simp add: all_hands_def)
  next
    case (Suc q)
    then have "q < length ps" using Cons.prems by simp
    from Cons.IH[OF this] show ?thesis using Suc by (simp add: all_hands_def)
  qed
qed

lemma set_hand_simps:
  "deck (set_hand p h s) = deck s"
  "rng (set_hand p h s) = rng s"
  "current_index (set_hand p h s) = current_index s"
  "direction (set_hand p h s) = direction s"
  "active_color (set_hand p h s) = active_color s"
  "pending_draw (set_hand p h s) = pending_draw s"
  "no_mercy (set_hand p h s) = no_mercy s"
  "length (players (set_hand p h s)) = length (players s)"
  by (simp_all add: set_hand_def)

lemma hand_of_set_hand:
  "p < length (players s) \<Longrightarrow> hand_of q (set_hand p h s) = (if q = p then h else hand_of q s)"
  by (simp add: hand_of_def set_hand_def nth_list_update)

lemma kind_set_hand:
  "kind (players (set_hand p h s) ! q) = kind (players s ! q)"
  by (cases "p < length (players s)"; cases "q = p")
     (simp_all add: set_hand_def list_update_beyond)

lemma all_cards_set_hand:
  "p < length (players s) \<Longrightarrow>
     all_cards (set_hand p h s) + mset (hand_of p s) = all_cards s + mset h"
  using all_hands_update[of p "players s" h]
  by (simp add: all_cards_def set_hand_def hand_of_def)

text \<open>\<open>draw_cards\<close>: the hand grows by what the deck could supply, nothing else moves.\<close>

lemma draw_cards_spec:
  assumes "p < length (players s)"
  shows "\<exists>drawn. hand_of p (draw_cards p n s) = hand_of p s @ drawn
           \<and> length drawn = min (nat n) (available (deck s))
           \<and> (\<forall>q. q \<noteq> p \<longrightarrow> hand_of q (draw_cards p n s) = hand_of q s)
           \<and> all_cards (draw_cards p n s) = all_cards s
           \<and> available (deck (draw_cards p n s)) = available (deck s) - length drawn
           \<and> top_discard (deck (draw_cards p n s)) = top_discard (deck s)"
proof -
  obtain h' d' g' where pd: "player_draw (nat n) (hand_of p s) (deck s) (rng s) = (h', d', g')"
    by (cases "player_draw (nat n) (hand_of p s) (deck s) (rng s)")
  from player_draw_spec[OF pd] obtain drawn where
    D: "h' = hand_of p s @ drawn" "length drawn = min (nat n) (available (deck s))"
       "deck_cards (deck s) = mset drawn + deck_cards d'"
       "available d' = available (deck s) - length drawn"
       "top_discard d' = top_discard (deck s)" by blast
  have eq: "draw_cards p n s = (set_hand p h' s)\<lparr>deck := d', rng := g'\<rparr>"
    using pd by (simp add: draw_cards_def)
  have hands: "\<And>q. hand_of q (draw_cards p n s) = (if q = p then h' else hand_of q s)"
    using hand_of_set_hand[OF assms, of _ h'] by (simp add: eq hand_of_def)
  have "all_cards (set_hand p h' s) + mset (hand_of p s) = all_cards s + mset h'"
    by (rule all_cards_set_hand[OF assms])
  then have "all_hands (players (set_hand p h' s)) + mset (hand_of p s)
      = all_hands (players s) + mset (hand_of p s) + mset drawn"
    using D(1) by (simp add: all_cards_def set_hand_simps)
  then have ah: "all_hands (players (set_hand p h' s)) = all_hands (players s) + mset drawn"
    by simp
  have ac: "all_cards (draw_cards p n s) = all_cards s"
    using ah D(3) by (simp add: eq all_cards_def)
  show ?thesis
    by (rule exI[of _ drawn]) (use hands D ac in \<open>simp add: eq\<close>)
qed

lemma draw_cards_frame:
  "length (players (draw_cards p n s)) = length (players s)"
  "current_index (draw_cards p n s) = current_index s"
  "direction (draw_cards p n s) = direction s"
  "active_color (draw_cards p n s) = active_color s"
  "pending_draw (draw_cards p n s) = pending_draw s"
  "no_mercy (draw_cards p n s) = no_mercy s"
  "kind (players (draw_cards p n s) ! q) = kind (players s ! q)"
  by (simp_all add: draw_cards_def set_hand_simps kind_set_hand split: prod.splits)

section \<open>Properties of playing a card\<close>

lemma advance_turn_ok:
  "players s \<noteq> [] \<Longrightarrow>
     advance_turn k s =
       Inr (s\<lparr>current_index := (current_index s + k * direction s) mod int (length (players s))\<rparr>)"
  by (simp add: advance_turn_def)

lemma advance_turn_Inr:
  "advance_turn k s = Inr s' \<Longrightarrow>
     s' = s\<lparr>current_index := (current_index s + k * direction s) mod int (length (players s))\<rparr>"
  by (auto simp: advance_turn_def Let_def split: if_splits)

lemma advance_turn_frame:
  assumes "advance_turn k s = Inr s'"
  shows "deck s' = deck s" "players s' = players s" "direction s' = direction s"
    "active_color s' = active_color s" "pending_draw s' = pending_draw s"
    "no_mercy s' = no_mercy s" "rng s' = rng s" "all_cards s' = all_cards s"
    "hand_of q s' = hand_of q s"
  using advance_turn_Inr[OF assms] by (simp_all add: all_cards_def hand_of_def)

lemma placed_frame:
  "length (players (placed p c ch s)) = length (players s)"
  "current_index (placed p c ch s) = current_index s"
  "direction (placed p c ch s) = direction s"
  "pending_draw (placed p c ch s) = pending_draw s"
  "no_mercy (placed p c ch s) = no_mercy s"
  "active_color (placed p c ch s) = (if is_wild (rank c) then ch else active_color s)"
  "discard_pile (deck (placed p c ch s)) = c # discard_pile (deck s)"
  "draw_pile (deck (placed p c ch s)) = draw_pile (deck s)"
  "kind (players (placed p c ch s) ! q) = kind (players s ! q)"
  "top_discard (deck (placed p c ch s)) = Inr c"
  by (simp_all add: placed_def Let_def set_hand_simps kind_set_hand discard_def top_discard_def)

lemma placed_hand:
  "p < length (players s) \<Longrightarrow>
     hand_of q (placed p c ch s) = (if q = p then remove1 c (hand_of p s) else hand_of q s)"
  by (simp add: placed_def Let_def hand_of_def set_hand_def nth_list_update)

lemma placed_all_cards:
  assumes "p < length (players s)" "c \<in> set (hand_of p s)"
  shows "all_cards (placed p c ch s) = all_cards s"
proof -
  define h where "h = remove1 c (hand_of p s)"
  have 1: "all_cards (set_hand p h s) + mset (hand_of p s) = all_cards s + mset h"
    by (rule all_cards_set_hand[OF assms(1)])
  have 2: "mset (hand_of p s) = add_mset c (mset h)"
    unfolding h_def using assms(2) by (simp only: mset_remove1 in_multiset_in_set insert_DiffM)
  have 3: "add_mset c (all_cards (set_hand p h s)) = all_cards s"
    using 1 unfolding 2 by simp
  have 4: "all_cards (placed p c ch s) = add_mset c (all_cards (set_hand p h s))"
    unfolding placed_def Let_def h_def
    by (simp add: all_cards_def deck_cards_def discard_def set_hand_simps)
  show ?thesis using 3 4 by simp
qed

lemma play_card_unfold:
  "play_card p c ch s fl =
     (if c \<notin> set (hand_of p s) then Inl ValueError
      else
        if rank c = SKIP then advance_turn 2 (placed p c ch s)
        else if rank c = REVERSE then
          (if length (players s) = 2 then advance_turn 2 (reverse (placed p c ch s))
           else advance_turn 1 (reverse (placed p c ch s)))
        else if rank c = DRAW_TWO then
          advance_turn 1 ((placed p c ch s)\<lparr>pending_draw := pending_draw s + 2\<rparr>)
        else if rank c = WILD then advance_turn 1 (placed p c ch s)
        else if rank c = WILD_DRAW_FOUR then
          (case next_player (placed p c ch s) of
             Inl e \<Rightarrow> Inl e
           | Inr opponent \<Rightarrow>
               if kind (players s ! opponent) = AggressiveAI \<or> fl then
                 (if player_had_active_color_before_wdf p (placed p c ch s)
                  then advance_turn 1 (draw_cards p 4 (placed p c ch s))
                  else advance_turn 1 (draw_cards opponent 6 (placed p c ch s)))
               else advance_turn 1 ((placed p c ch s)\<lparr>pending_draw := pending_draw s + 4\<rparr>))
        else advance_turn 1 (placed p c ch s))"
  by (simp add: play_card_def placed_def Let_def reverse_def set_hand_simps kind_set_hand
        is_wild_def WILDS_def split: sum.splits)

lemma is_wild_iff: "is_wild r \<longleftrightarrow> r = WILD \<or> r = WILD_DRAW_FOUR"
  by (auto simp: is_wild_def WILDS_def)

lemma nat_mod_less: "0 < n \<Longrightarrow> nat (i mod int n) < n"
  by (simp add: nat_less_iff)

lemma next_player_ok:
  "players s \<noteq> [] \<Longrightarrow>
     \<exists>q. next_player s = Inr q \<and> q < length (players s)
       \<and> int q = (current_index s + direction s) mod int (length (players s))"
  by (simp add: next_player_def Let_def nat_mod_less)

lemma next_player_Inr:
  "next_player s = Inr q \<Longrightarrow> q < length (players s)
     \<and> int q = (current_index s + direction s) mod int (length (players s))"
  by (auto simp: next_player_def Let_def nat_mod_less split: if_splits)

lemma next_player_placed:
  "next_player (placed p c ch s) = next_player s"
  by (simp add: next_player_def placed_frame)

lemma play_card_active_color:
  assumes "play_card p c ch s fl = Inr s'"
  shows "active_color s' = (if is_wild (rank c) then ch else active_color s)"
  using assms unfolding play_card_unfold
  by (auto split: if_splits sum.splits dest!: advance_turn_Inr
        simp: placed_frame draw_cards_frame reverse_def)

lemma placed_nonempty: "p < length (players s) \<Longrightarrow> players (placed p c ch s) \<noteq> []"
  using placed_frame(1)[of p c ch s] by auto

lemma draw_cards_nonempty: "players s \<noteq> [] \<Longrightarrow> players (draw_cards p n s) \<noteq> []"
  using draw_cards_frame(1)[of p n s] by auto

lemma play_card_total:
  assumes "p < length (players s)" "c \<in> set (hand_of p s)"
  shows "\<exists>s'. play_card p c ch s fl = Inr s'"
proof -
  have ne: "players (placed p c ch s) \<noteq> []" by (rule placed_nonempty[OF assms(1)])
  obtain q where q: "next_player (placed p c ch s) = Inr q"
    using next_player_ok[OF ne] by blast
  have adv: "\<And>k x. players x \<noteq> [] \<Longrightarrow> \<exists>s'. advance_turn k x = Inr s'"
    by (simp add: advance_turn_def)
  have 1: "\<And>k. \<exists>s'. advance_turn k (placed p c ch s) = Inr s'" using adv ne by blast
  have 2: "\<And>k. \<exists>s'. advance_turn k (reverse (placed p c ch s)) = Inr s'"
    using adv ne by (simp add: reverse_def)
  have 3: "\<And>k v. \<exists>s'. advance_turn k ((placed p c ch s)\<lparr>pending_draw := v\<rparr>) = Inr s'"
    using adv ne by simp
  have 4: "\<And>k r n. \<exists>s'. advance_turn k (draw_cards r n (placed p c ch s)) = Inr s'"
    using adv draw_cards_nonempty[OF ne] by blast
  show ?thesis unfolding play_card_unfold using assms(2) q 1 2 3 4 by simp
qed

section \<open>Properties of a turn\<close>

lemma current_Inr: "current s = Inr p \<Longrightarrow> p < length (players s)"
  by (auto simp: current_def py_index_def split: if_splits option.splits)

lemma check_win_pending: "check_win p (s\<lparr>pending_draw := v\<rparr>) = check_win p s"
  by (simp add: check_win_def hand_of_def)

lemma table_simps:
  "players (table dp disc h0 h1 n) =
     [\<lparr>name = ''You'', hand = h0, kind = HumanPlayer\<rparr>,
      \<lparr>name = ''AI-1'', hand = h1, kind = AggressiveAI\<rparr>]"
  "deck (table dp disc h0 h1 n) = \<lparr>draw_pile = dp, discard_pile = disc\<rparr>"
  "current_index (table dp disc h0 h1 n) = 0"
  "direction (table dp disc h0 h1 n) = 1"
  "active_color (table dp disc h0 h1 n) = Some RED"
  "pending_draw (table dp disc h0 h1 n) = n"
  "no_mercy (table dp disc h0 h1 n) = True"
  "rng (table dp disc h0 h1 n) = []"
  "hand_of 0 (table dp disc h0 h1 n) = h0"
  "hand_of (Suc 0) (table dp disc h0 h1 n) = h1"
  "current (table dp disc h0 h1 n) = Inr 0"
  by (simp_all add: table_def hand_of_def current_def py_index_def)

lemma placed_available:
  "available (deck (placed p c ch s)) = length (draw_pile (deck s)) + length (discard_pile (deck s))"
  by (simp add: available_def placed_frame)

lemma placed_wdf_table_test:
  "play_card 0 WDF1 (Some RED) (table [B2] [R5] [WDF1, R3] [Y7] 0) False
     = Inr ((table [] [WDF1] [R3, B2, R5] [Y7] 0)\<lparr>current_index := 1\<rparr>)"
  by (simp add: play_card_def table_simps Let_def sample_cards is_wild_iff set_hand_def
      discard_def next_player_def player_had_active_color_before_wdf_def hand_of_def
      draw_cards_def draw_def reshuffle_from_discard_def shuffle_def advance_turn_def
      numeral_eq_Suc)



text \<open>
  What a DRAW move does under a pending draw, in every state: the player draws what the
  deck can supply up to the pending amount, the pending draw is reset, and the turn
  stays where it is (this branch never calls \<open>advance_turn\<close>).
\<close>

lemma turn_draw_pending:
  assumes "current s = Inr p" and "0 < pending_draw s"
  shows "\<exists>over s' drawn. turn DRAW s = Inr (over, s')
           \<and> hand_of p s' = hand_of p s @ drawn
           \<and> length drawn = min (nat (pending_draw s)) (available (deck s))
           \<and> (\<forall>q. q \<noteq> p \<longrightarrow> hand_of q s' = hand_of q s)
           \<and> pending_draw s' = 0
           \<and> direction s' = direction s
           \<and> current_index s' = current_index s
           \<and> all_cards s' = all_cards s
           \<and> (over \<longleftrightarrow> hand_of p s' = [])"
proof -
  have p: "p < length (players s)" by (rule current_Inr[OF assms(1)])
  define s1 where "s1 = draw_cards p (pending_draw s) s"
  from draw_cards_spec[OF p, of "pending_draw s"] obtain drawn where
    D: "hand_of p s1 = hand_of p s @ drawn"
       "length drawn = min (nat (pending_draw s)) (available (deck s))"
       "\<forall>q. q \<noteq> p \<longrightarrow> hand_of q s1 = hand_of q s"
       "all_cards s1 = all_cards s"
    unfolding s1_def by blast
  have t: "turn DRAW s = Inr (check_win p s1, s1\<lparr>pending_draw := 0\<rparr>)"
    using assms by (simp add: turn_def turn_draw_def win_or_continue_def s1_def check_win_pending)
  have f: "\<And>q. hand_of q (s1\<lparr>pending_draw := 0\<rparr>) = hand_of q s1"
    "all_cards (s1\<lparr>pending_draw := 0\<rparr>) = all_cards s1"
    "direction s1 = direction s" "current_index s1 = current_index s"
    by (simp_all add: hand_of_def all_cards_def s1_def draw_cards_frame)
  show ?thesis
    apply (rule exI[of _ "check_win p s1"])
    apply (rule exI[of _ "s1\<lparr>pending_draw := 0\<rparr>"])
    apply (rule exI[of _ drawn])
    using t D f by (simp add: check_win_def)
qed

section \<open>Conservation of the cards\<close>

lemma play_card_all_cards:
  assumes "play_card p c ch s fl = Inr s'" and "p < length (players s)"
  shows "all_cards s' = all_cards s"
proof -
  let ?s2 = "placed p c ch s"
  have c: "c \<in> set (hand_of p s)"
    using assms(1) unfolding play_card_unfold by (auto split: if_splits)
  have a2: "all_cards ?s2 = all_cards s" by (rule placed_all_cards[OF assms(2) c])
  have dc: "\<And>q n. q < length (players s) \<Longrightarrow> all_cards (draw_cards q n ?s2) = all_cards s"
  proof -
    fix q n assume "q < length (players s)"
    then have "q < length (players ?s2)" by (simp add: placed_frame)
    from draw_cards_spec[OF this, of n] show "all_cards (draw_cards q n ?s2) = all_cards s"
      using a2 by auto
  qed
  have rv: "all_cards (reverse ?s2) = all_cards s"
    using a2 by (simp add: reverse_def all_cards_def)
  have pd: "\<And>v. all_cards (?s2\<lparr>pending_draw := v\<rparr>) = all_cards s"
    using a2 by (simp add: all_cards_def)
  have np: "\<And>q. next_player ?s2 = Inr q \<Longrightarrow> q < length (players s)"
    using next_player_Inr[of ?s2] by (simp add: placed_frame)
  show ?thesis
    using assms(1) c unfolding play_card_unfold
    by (auto split: if_splits sum.splits dest!: advance_turn_frame(8) np
          simp: a2 dc rv pd assms(2))
qed

lemma play_card_players:
  assumes "play_card p c ch s fl = Inr s'"
  shows "length (players s') = length (players s)"
  using assms unfolding play_card_unfold
  by (auto split: if_splits sum.splits dest!: advance_turn_Inr
        simp: placed_frame draw_cards_frame reverse_def)

lemma win_or_continue_Inr:
  "win_or_continue p r = Inr (b, s') \<Longrightarrow> r = Inr s'"
  by (auto simp: win_or_continue_def split: sum.splits)

lemma continue_Inr: "continue r = Inr (b, s') \<Longrightarrow> r = Inr s'"
  by (auto simp: continue_def split: sum.splits)

lemma turn_invalid_all_cards:
  assumes "turn_invalid p s = Inr (b, s')" "p < length (players s)"
  shows "all_cards s' = all_cards s"
proof -
  have "advance_turn 1 (draw_cards p 1 s) = Inr s'"
    using assms(1) unfolding turn_invalid_def by (rule continue_Inr)
  then have "all_cards s' = all_cards (draw_cards p 1 s)" by (rule advance_turn_frame(8))
  then show ?thesis using draw_cards_spec[OF assms(2), of 1] by auto
qed

lemma turn_play_all_cards:
  assumes "turn_play p c ch fl s = Inr (b, s')" "p < length (players s)"
  shows "all_cards s' = all_cards s"
  using assms unfolding turn_play_def
  by (auto split: if_splits sum.splits
        dest!: continue_Inr win_or_continue_Inr advance_turn_frame(8)
        dest: play_card_all_cards)

lemma all_cards_deck_rng:
  "all_cards (s\<lparr>deck := d, rng := g\<rparr>) = deck_cards d + all_hands (players s)"
  by (simp add: all_cards_def)

lemma turn_draw_all_cards:
  assumes "turn_draw p s = Inr (b, s')" "p < length (players s)"
  shows "all_cards s' = all_cards s"
proof (cases "0 < pending_draw s")
  case True
  then have "s' = (draw_cards p (pending_draw s) s)\<lparr>pending_draw := 0\<rparr>"
    using assms(1) by (auto simp: turn_draw_def dest!: win_or_continue_Inr)
  then have "all_cards s' = all_cards (draw_cards p (pending_draw s) s)"
    by (simp add: all_cards_def)
  then show ?thesis using draw_cards_spec[OF assms(2), of "pending_draw s"] by auto
next
  case False
  obtain drawn d1 g1 where dr: "draw (deck s) (rng s) = (drawn, d1, g1)"
    by (cases "draw (deck s) (rng s)")
  let ?s1 = "s\<lparr>deck := d1, rng := g1\<rparr>"
  have p1: "p < length (players ?s1)" using assms(2) by simp
  show ?thesis
  proof (cases drawn)
    case None
    have "d1 = d" if "d = deck s" for d using draw_None(1)[of "deck s" "rng s" d1 g1] dr None that
      by simp
    then have a1: "all_cards ?s1 = all_cards s" by (simp add: all_cards_def)
    have "advance_turn 1 ?s1 = Inr s'"
      using assms(1) False dr None by (auto simp: turn_draw_def dest!: win_or_continue_Inr)
    then show ?thesis using a1 advance_turn_frame(8) by metis
  next
    case (Some c)
    have dk: "deck_cards (deck s) = add_mset c (deck_cards d1)"
      using draw_Some(1)[of "deck s" "rng s" c d1 g1] dr Some by simp
    let ?s2 = "set_hand p (hand_of p ?s1 @ [c]) ?s1"
    have "all_cards ?s2 + mset (hand_of p ?s1) = all_cards ?s1 + mset (hand_of p ?s1 @ [c])"
      by (rule all_cards_set_hand[OF p1])
    then have "all_cards ?s2 = add_mset c (all_cards ?s1)" by simp
    then have a2: "all_cards ?s2 = all_cards s" using dk by (simp add: all_cards_def)
    have p2: "p < length (players ?s2)" using assms(2) by (simp add: set_hand_simps)
    have "(\<exists>ch. play_card p c ch ?s2 False = Inr s') \<or> advance_turn 1 ?s2 = Inr s'"
      using assms(1) False dr Some
      by (auto simp: turn_draw_def Let_def split: sum.splits if_splits
            dest!: win_or_continue_Inr)
    then show ?thesis
      using a2 play_card_all_cards[OF _ p2] advance_turn_frame(8)[of 1 ?s2 s'] by auto
  qed
qed

lemma turn_all_cards:
  assumes "turn m s = Inr (b, s')"
  shows "all_cards s' = all_cards s"
proof -
  obtain p where p: "current s = Inr p" using assms by (auto simp: turn_def split: sum.splits)
  have pl: "p < length (players s)" by (rule current_Inr[OF p])
  show ?thesis
    using assms p turn_invalid_all_cards[OF _ pl] turn_draw_all_cards[OF _ pl]
      turn_play_all_cards[OF _ pl]
    by (cases m) (auto simp: turn_def)
qed

lemma build_cards_deck: "deck_cards (fst (build g)) = mset build_cards"
  using shuffle_mset[of build_cards g]
  by (cases "shuffle build_cards g") (simp add: build_def deck_cards_def)

lemma new_players_hands: "all_hands (new_players pc) = {#}"
  by (simp add: all_hands_def new_players_def comp_def)

lemma deal_fold:
  "\<forall>p \<in> set ps. p < length (players s) \<Longrightarrow>
     all_cards (fold (\<lambda>p. draw_cards p 7) ps s) = all_cards s
     \<and> length (players (fold (\<lambda>p. draw_cards p 7) ps s)) = length (players s)"
proof (induction ps arbitrary: s)
  case Nil
  then show ?case by simp
next
  case (Cons p ps)
  have p: "p < length (players s)" using Cons.prems by simp
  have 1: "all_cards (draw_cards p 7 s) = all_cards s"
    using draw_cards_spec[OF p, of 7] by auto
  have 2: "length (players (draw_cards p 7 s)) = length (players s)"
    by (rule draw_cards_frame(1))
  have "\<forall>q \<in> set ps. q < length (players (draw_cards p 7 s))"
    using Cons.prems 2 by simp
  from Cons.IH[OF this] show ?case using 1 2 by simp
qed

lemma deal_all_cards: "all_cards (deal s) = all_cards s"
  using deal_fold[of "[0 ..< length (players s)]" s] by (simp add: deal_def)

lemma start_discard_deck_cards:
  "start_discard_non_wild n d g = Some (Inr (d', g')) \<Longrightarrow> deck_cards d' = deck_cards d"
proof (induction n arbitrary: d g)
  case 0
  then show ?case by simp
next
  case (Suc n)
  obtain r d1 g1 where dr: "draw d g = (r, d1, g1)" by (cases "draw d g")
  show ?case
  proof (cases r)
    case None
    then show ?thesis using Suc.prems dr by simp
  next
    case (Some c)
    have dk: "deck_cards d = add_mset c (deck_cards d1)"
      using draw_Some(1)[of d g c d1 g1] dr Some by simp
    have dd: "deck_cards (discard d1 c) = deck_cards d"
      using dk by (simp add: deck_cards_def discard_def)
    show ?thesis
    proof (cases "is_wild (rank c)")
      case True
      then have "start_discard_non_wild n (discard d1 c) g1 = Some (Inr (d', g'))"
        using Suc.prems dr Some by simp
      from Suc.IH[OF this] show ?thesis using dd by simp
    next
      case False
      then show ?thesis using Suc.prems dr Some dd by auto
    qed
  qed
qed

lemma apply_initial_effect_all_cards:
  "apply_initial_effect c s = Inr s' \<Longrightarrow> all_cards s' = all_cards s"
  by (auto simp: apply_initial_effect_def reverse_def all_cards_def split: if_splits
        dest!: advance_turn_Inr)

lemma start_game_all_cards:
  assumes "start_game fuel gm g = Some (Inr s)"
  shows "all_cards s = mset build_cards"
proof -
  obtain d g1 where b: "build g = (d, g1)" by (cases "build g")
  let ?s0 = "new_state d (new_players (player_count gm)) (game_no_mercy gm) g1"
  let ?s1 = "deal ?s0"
  have d: "deck_cards d = mset build_cards" using build_cards_deck[of g] b by simp
  have "all_cards ?s0 = mset build_cards"
    using d by (simp add: all_cards_def new_state_def new_players_hands)
  then have a1: "all_cards ?s1 = mset build_cards" by (simp add: deal_all_cards)
  obtain d2 g2 where sd: "start_discard_non_wild fuel (deck ?s1) (rng ?s1) = Some (Inr (d2, g2))"
    using assms b by (auto simp: start_game_def Let_def split: option.splits sum.splits)
  have "deck_cards d2 = deck_cards (deck ?s1)" by (rule start_discard_deck_cards[OF sd])
  then have a2: "\<And>col. all_cards (?s1\<lparr>deck := d2, rng := g2, active_color := col\<rparr>)
      = mset build_cards"
    using a1 by (simp add: all_cards_def)
  obtain topc where
    "apply_initial_effect topc (?s1\<lparr>deck := d2, rng := g2, active_color := Some (color topc)\<rparr>)
       = Inr s"
    using assms b sd by (auto simp: start_game_def Let_def split: sum.splits)
  from apply_initial_effect_all_cards[OF this] show ?thesis using a2 by simp
qed

lemma reachable_all_cards:
  "reachable r \<Longrightarrow> all_cards (snd r) = mset build_cards"
proof (induction rule: reachable.induct)
  case (start fuel pc nm g s)
  then show ?case by (simp add: start_game_all_cards)
next
  case (step s m r)
  then show ?case using turn_all_cards[of m s "fst r" "snd r"] by simp
qed

lemma face_mk_card: "face (mk_card i f) = f"
  by (simp add: face_def mk_card_def)

lemma map_face_map2:
  "length ns = length fs \<Longrightarrow> map face (map2 mk_card ns fs) = fs"
  by (induction ns fs rule: list_induct2) (simp_all add: face_mk_card)

lemma faces_of_build_cards: "map face build_cards = faces"
  unfolding build_cards_def by (rule map_face_map2) simp

lemma faces_explicit: "faces = 
   concat (map (\<lambda>c. [(c, ZERO),
      (c, ONE), (c, TWO), (c, THREE), (c, FOUR), (c, FIVE), (c, SIX), (c, SEVEN), (c, EIGHT),
      (c, NINE), (c, SKIP), (c, REVERSE), (c, DRAW_TWO),
      (c, ONE), (c, TWO), (c, THREE), (c, FOUR), (c, FIVE), (c, SIX), (c, SEVEN), (c, EIGHT),
      (c, NINE), (c, SKIP), (c, REVERSE), (c, DRAW_TWO)]) [RED, YELLOW, GREEN, BLUE])
   @ [(COLOR_WILD, WILD), (COLOR_WILD, WILD_DRAW_FOUR), (COLOR_WILD, WILD), (COLOR_WILD, WILD_DRAW_FOUR),
      (COLOR_WILD, WILD), (COLOR_WILD, WILD_DRAW_FOUR), (COLOR_WILD, WILD), (COLOR_WILD, WILD_DRAW_FOUR)]"
  by (simp add: faces_def STANDARD_def NUMBERS_def ACTIONS_def numeral_eq_Suc)

lemma length_faces: "length faces = 108"
  unfolding faces_explicit by simp

lemma count_faces: "count (mset faces) (c, r) = copies c r"
  unfolding faces_explicit by (cases c; cases r) (simp_all add: copies_def)

lemma start_first_position: "start_game 3 (game_init 2 True) [] = Some (Inr first_position)"
  by code_simp

lemma reachable_first_position: "reachable (False, first_position)"
  by (rule reachable.start[OF start_first_position])

section \<open>Positions the game reaches\<close>

lemma run_reachable:
  "reachable (False, s) \<Longrightarrow> run ms s = Inr r \<Longrightarrow> reachable r"
proof (induction ms arbitrary: s)
  case Nil
  then show ?case by simp
next
  case (Cons m ms)
  obtain over s' where t: "turn m s = Inr (over, s')"
    using Cons.prems(2) by (auto split: sum.splits)
  have r': "reachable (over, s')" by (rule reachable.step[OF Cons.prems(1) t])
  show ?case
  proof (cases over)
    case True
    then show ?thesis using Cons.prems(2) t r' by simp
  next
    case False
    then have 1: "run ms s' = Inr r" using Cons.prems(2) t by simp
    have 2: "reachable (False, s')" using r' False by simp
    show ?thesis by (rule Cons.IH[OF 2 1])
  qed
qed

lemma run_exhausted:
  "run (replicate 93 INVALID) first_position = Inr (False, exhausted_position)"
  by code_simp

lemma reachable_exhausted_position: "reachable (False, exhausted_position)"
  by (rule run_reachable[OF reachable_first_position run_exhausted])

text \<open>Each move of the way to \<open>pending_position\<close> is the one \<open>choose_move\<close> returns.\<close>

lemma moves_to_pending_position:
  "human_choose_move 0 first_position 1 RED = Inr (PLAY (build_cards ! 1) (Some RED) False)"
  "turn (PLAY (build_cards ! 1) (Some RED) False) first_position = Inr (False, after_red_one)"
  "ai_choose_move 1 after_red_one = Inr (PLAY (build_cards ! 10) (Some RED) False)"
  "turn (PLAY (build_cards ! 10) (Some RED) False) after_red_one = Inr (False, after_skip)"
  "ai_choose_move 1 after_skip = Inr (PLAY (build_cards ! 11) (Some RED) False)"
  "turn (PLAY (build_cards ! 11) (Some RED) False) after_skip = Inr (False, after_reverse)"
  "ai_choose_move 1 after_reverse = Inr (PLAY (build_cards ! 12) (Some RED) False)"
  "turn (PLAY (build_cards ! 12) (Some RED) False) after_reverse
     = Inr (False, pending_position)"
  by code_simp+

lemma reachable_pending_position: "reachable (False, pending_position)"
proof -
  note m = moves_to_pending_position
  have 1: "reachable (False, after_red_one)"
    by (rule reachable.step[OF reachable_first_position m(2)])
  have 2: "reachable (False, after_skip)" by (rule reachable.step[OF 1 m(4)])
  have 3: "reachable (False, after_reverse)" by (rule reachable.step[OF 2 m(6)])
  show ?thesis by (rule reachable.step[OF 3 m(8)])
qed

lemma start_wdf_position: "start_game 3 (game_init 2 True) wdf_draws = Some (Inr wdf_position)"
  by code_simp

lemma reachable_wdf_position: "reachable (False, wdf_position)"
  by (rule reachable.start[OF start_wdf_position])

section \<open>The claims\<close>

text \<open>
  Claim C1, evaluated on the code. In \<open>pending_position\<close>, which the players' own
  moves reach from the start of a two-player game, the pending draw is 2, the draw
  pile holds 93 cards and the human, at index 0, is to move and answers DRAW. The
  engine gives the human the whole pending amount, cards 16 and 17, and resets
  \<open>pending_draw\<close> to 0, as the claim says. It does not advance the turn:
  \<open>current_index\<close> is still 0 afterwards, where one step in the current direction
  leads to index 1, so the same player moves again.
\<close>

theorem pending_draw_keeps_turn:
  "reachable (False, pending_position)
   \<and> current pending_position = Inr 0
   \<and> length (players pending_position) = 2
   \<and> direction pending_position = - 1
   \<and> pending_draw pending_position = 2
   \<and> human_choose_move 0 pending_position 0 RED = Inr DRAW
   \<and> turn DRAW pending_position
       = Inr (False,
              (position ([18 ..< 108] @ [0]) [12, 11, 10, 1, 15] ([2 ..< 8] @ [16, 17])
                 [8, 9, 13, 14] 0 0)\<lparr>direction := - 1\<rparr>)
   \<and> (current_index pending_position + 1 * direction pending_position)
         mod int (length (players pending_position)) = 1"
proof -
  have "current pending_position = Inr 0" by code_simp
  moreover have "length (players pending_position) = 2" by code_simp
  moreover have "direction pending_position = - 1" by code_simp
  moreover have "pending_draw pending_position = 2" by code_simp
  moreover have "human_choose_move 0 pending_position 0 RED = Inr DRAW" by code_simp
  moreover have "turn DRAW pending_position
       = Inr (False,
              (position ([18 ..< 108] @ [0]) [12, 11, 10, 1, 15] ([2 ..< 8] @ [16, 17])
                 [8, 9, 13, 14] 0 0)\<lparr>direction := - 1\<rparr>)" by code_simp
  moreover have "(current_index pending_position + 1 * direction pending_position)
         mod int (length (players pending_position)) = 1" by code_simp
  ultimately show ?thesis using reachable_pending_position by blast
qed

text \<open>
  Claim C2, evaluated on the code. \<open>wdf_position\<close> is the position before the first
  turn of a two-player game under the generator draws \<open>wdf_draws\<close>: red is active, the
  human holds the red 1 to 6 and card 101, a Wild Draw Four, and the next player is
  automated, so it always challenges. The human plays the Wild Draw Four naming blue.
  The human held non-wild cards of the colour that was active before the play
  (\<open>has_color\<close> on the hand and colour at the moment of play), so the claim judges the
  play illegal and the human should draw four. The engine reads \<open>active_color\<close> after
  it has been overwritten with blue, finds no blue card in the hand, and makes the
  challenger draw six: cards 15 to 20 go to the automated player.
\<close>

theorem wdf_legality_uses_chosen_color:
  "reachable (False, wdf_position)
   \<and> current wdf_position = Inr 0
   \<and> rank (build_cards ! 101) = WILD_DRAW_FOUR
   \<and> active_color wdf_position = Some RED
   \<and> has_color (hand_of 0 wdf_position) (active_color wdf_position)
   \<and> kind (players wdf_position ! 1) = AggressiveAI
   \<and> turn (PLAY (build_cards ! 101) (Some BLUE) False) wdf_position
       = Inr (False, (position ([21 ..< 101] @ [102 ..< 108] @ [0]) [101, 14] [1 ..< 7]
                        ([7 ..< 14] @ [15 ..< 21]) 1 0)\<lparr>active_color := Some BLUE\<rparr>)"
proof -
  have "current wdf_position = Inr 0" by code_simp
  moreover have "rank (build_cards ! 101) = WILD_DRAW_FOUR" by code_simp
  moreover have "active_color wdf_position = Some RED" by code_simp
  moreover have "has_color (hand_of 0 wdf_position) (active_color wdf_position)" by code_simp
  moreover have "kind (players wdf_position ! 1) = AggressiveAI" by code_simp
  moreover have "turn (PLAY (build_cards ! 101) (Some BLUE) False) wdf_position
       = Inr (False, (position ([21 ..< 101] @ [102 ..< 108] @ [0]) [101, 14] [1 ..< 7]
                        ([7 ..< 14] @ [15 ..< 21]) 1 0)\<lparr>active_color := Some BLUE\<rparr>)"
    by code_simp
  ultimately show ?thesis using reachable_wdf_position by blast
qed

text \<open>
  Claim C3 (amended). Playing a Wild Draw Four that is in the hand of player \<open>p\<close>
  returns without error. A challenge is raised exactly when the next player is an
  automated one or the move carries the challenge flag. If a challenge is raised and
  the engine's legality check flags the play, player \<open>p\<close> draws 4 cards, or as many as
  the deck can still supply if these are fewer; if a challenge is raised and the check
  does not flag the play, the challenger draws 6 cards, or as many as the deck can
  still supply; in both cases \<open>pending_draw\<close> is unchanged. Without a challenge nobody
  draws and \<open>pending_draw\<close> grows by 4. In every outcome the direction is kept and the
  turn advances exactly one step. The statement does not say on which colour the
  legality check decides.
\<close>

theorem wild_draw_four_outcomes:
  assumes "p < length (players s)" and "c \<in> set (hand_of p s)"
    and "rank c = WILD_DRAW_FOUR"
  shows "\<exists>opponent s' drawn.
           next_player s = Inr opponent \<and> play_card p c ch s fl = Inr s'
           \<and> current_index s'
               = (current_index s + 1 * direction s) mod int (length (players s))
           \<and> direction s' = direction s
           \<and> (\<forall>q. hand_of q s' =
                  (if q = p then remove1 c (hand_of p s) else hand_of q s)
                  @ (if (kind (players s ! opponent) = AggressiveAI \<or> fl)
                        \<and> q = (if player_had_active_color_before_wdf p (placed p c ch s)
                                 then p else opponent)
                     then drawn else []))
           \<and> length drawn =
                 min (if player_had_active_color_before_wdf p (placed p c ch s) then 4 else 6)
                     (available (discard (deck s) c))
           \<and> pending_draw s' =
                 (if kind (players s ! opponent) = AggressiveAI \<or> fl then pending_draw s
                  else pending_draw s + 4)"
proof -
  let ?s2 = "placed p c ch s"
  let ?ill = "player_had_active_color_before_wdf p ?s2"
  let ?n = "if ?ill then 4 else 6 :: int"
  let ?idx = "(current_index s + 1 * direction s) mod int (length (players s))"
  have ne: "players s \<noteq> []" using assms(1) by auto
  have p2: "p < length (players ?s2)" using assms(1) by (simp add: placed_frame)
  obtain opp where opp: "next_player s = Inr opp" "opp < length (players s)"
    using next_player_ok[OF ne] by blast
  have opp2: "opp < length (players ?s2)" using opp(2) by (simp add: placed_frame)
  let ?who = "if ?ill then p else opp"
  have who: "?who < length (players ?s2)" using p2 opp2 by simp
  have h2: "\<And>q. hand_of q ?s2 = (if q = p then remove1 c (hand_of p s) else hand_of q s)"
    by (rule placed_hand[OF assms(1)])
  have av: "available (deck ?s2) = available (discard (deck s) c)"
    by (simp add: placed_def Let_def set_hand_simps)
  have adv: "\<And>x. length (players x) = length (players s) \<Longrightarrow> advance_turn 1 x
      = Inr (x\<lparr>current_index := (current_index x + 1 * direction x) mod int (length (players s))\<rparr>)"
    using ne by (simp add: advance_turn_def)
  show ?thesis
  proof (cases "kind (players s ! opp) = AggressiveAI \<or> fl")
    case True
    let ?s' = "(draw_cards ?who ?n ?s2)\<lparr>current_index := ?idx\<rparr>"
    from draw_cards_spec[OF who, of ?n] obtain drawn where
      D: "hand_of ?who (draw_cards ?who ?n ?s2) = hand_of ?who ?s2 @ drawn"
         "length drawn = min (nat ?n) (available (deck ?s2))"
         "\<forall>q. q \<noteq> ?who \<longrightarrow> hand_of q (draw_cards ?who ?n ?s2) = hand_of q ?s2" by blast
    have pc: "play_card p c ch s fl = advance_turn 1 (draw_cards ?who ?n ?s2)"
      unfolding play_card_unfold using assms(2,3) opp(1) True
      by (auto simp: next_player_placed)
    have 1: "play_card p c ch s fl = Inr ?s'"
      unfolding pc using adv[of "draw_cards ?who ?n ?s2"]
      by (simp add: draw_cards_frame placed_frame)
    have 2: "current_index ?s' = ?idx" "direction ?s' = direction s"
      "pending_draw ?s' = pending_draw s"
      by (simp_all add: draw_cards_frame placed_frame)
    have hq: "\<And>q. hand_of q ?s' = hand_of q ?s2 @ (if q = ?who then drawn else [])"
    proof -
      fix q
      have "hand_of q ?s' = hand_of q (draw_cards ?who ?n ?s2)" by (simp add: hand_of_def)
      also have "\<dots> = hand_of q ?s2 @ (if q = ?who then drawn else [])"
        using D(1,3) by (cases "q = ?who") auto
      finally show "hand_of q ?s' = hand_of q ?s2 @ (if q = ?who then drawn else [])" .
    qed
    have 3: "\<forall>q. hand_of q ?s' =
        (if q = p then remove1 c (hand_of p s) else hand_of q s)
        @ (if (kind (players s ! opp) = AggressiveAI \<or> fl) \<and> q = ?who then drawn else [])"
      using hq h2 True by simp
    have 4: "length drawn = min (if ?ill then 4 else 6) (available (discard (deck s) c))"
      using D(2) av by (cases ?ill) simp_all
    have 5: "pending_draw ?s' =
        (if kind (players s ! opp) = AggressiveAI \<or> fl then pending_draw s
         else pending_draw s + 4)"
      using True 2(3) by simp
    from opp(1) 1 2(1,2) 3 4 5 show ?thesis by blast
  next
    case False
    let ?s' = "?s2\<lparr>pending_draw := pending_draw s + 4, current_index := ?idx\<rparr>"
    have pc: "play_card p c ch s fl = advance_turn 1 (?s2\<lparr>pending_draw := pending_draw s + 4\<rparr>)"
      unfolding play_card_unfold using assms(2,3) opp(1) False
      by (auto simp: next_player_placed)
    have 1: "play_card p c ch s fl = Inr ?s'"
      unfolding pc using adv[of "?s2\<lparr>pending_draw := pending_draw s + 4\<rparr>"]
      by (simp add: placed_frame)
    obtain drawn :: "card list" where
      4: "length drawn = min (if ?ill then 4 else 6) (available (discard (deck s) c))"
      using Ex_list_of_length by blast
    have 2: "current_index ?s' = ?idx" "direction ?s' = direction s"
      by (simp_all add: placed_frame)
    have hq: "\<And>q. hand_of q ?s' = hand_of q ?s2" by (simp add: hand_of_def)
    have 3: "\<forall>q. hand_of q ?s' =
        (if q = p then remove1 c (hand_of p s) else hand_of q s)
        @ (if (kind (players s ! opp) = AggressiveAI \<or> fl) \<and> q = ?who then drawn else [])"
      using hq h2 False by simp
    have 5: "pending_draw ?s' =
        (if kind (players s ! opp) = AggressiveAI \<or> fl then pending_draw s
         else pending_draw s + 4)"
      using False by simp
    from opp(1) 1 2 3 4 5 show ?thesis by blast
  qed
qed

text \<open>
  Claim C3, instance: a challenged Wild Draw Four naming red, played while holding a
  red 3, with five cards in the draw pile: the player draws exactly four.
\<close>

theorem wild_draw_four_outcomes_witness:
  "\<exists>s' drawn. play_card 0 WDF1 (Some RED)
        (table [B2, B4, B6, G1, G2] [R5] [WDF1, R3] [Y7] 0) False = Inr s'
     \<and> hand_of 0 s' = [R3] @ drawn \<and> length drawn = 4 \<and> hand_of 1 s' = [Y7]
     \<and> pending_draw s' = 0 \<and> current_index s' = 1"
proof -
  let ?t = "table [B2, B4, B6, G1, G2] [R5] [WDF1, R3] [Y7] 0"
  have 1: "0 < length (players ?t)" "WDF1 \<in> set (hand_of 0 ?t)" "rank WDF1 = WILD_DRAW_FOUR"
    by (simp_all add: table_simps sample_cards)
  have np: "next_player ?t = Inr 1" by (simp add: next_player_def table_simps)
  have ill: "player_had_active_color_before_wdf 0 (placed 0 WDF1 (Some RED) ?t)"
    by (simp add: player_had_active_color_before_wdf_def placed_hand placed_frame table_simps
          sample_cards is_wild_iff)
  have k: "kind (players ?t ! 1) = AggressiveAI" by (simp add: table_simps)
  have av: "available (discard (deck ?t) WDF1) = 6"
    by (simp add: available_def discard_def table_simps)
  from wild_draw_four_outcomes[OF 1, of "Some RED" False] obtain opp s' drawn where
    W: "next_player ?t = Inr opp" "play_card 0 WDF1 (Some RED) ?t False = Inr s'"
      "current_index s' = (current_index ?t + 1 * direction ?t) mod int (length (players ?t))"
      "\<forall>q. hand_of q s' =
          (if q = 0 then remove1 WDF1 (hand_of 0 ?t) else hand_of q ?t)
          @ (if (kind (players ?t ! opp) = AggressiveAI \<or> False)
                \<and> q = (if player_had_active_color_before_wdf 0 (placed 0 WDF1 (Some RED) ?t)
                         then 0 else opp)
             then drawn else [])"
      "length drawn =
         min (if player_had_active_color_before_wdf 0 (placed 0 WDF1 (Some RED) ?t)
              then 4 else 6)
             (available (discard (deck ?t) WDF1))"
      "pending_draw s' =
         (if kind (players ?t ! opp) = AggressiveAI \<or> False then pending_draw ?t
          else pending_draw ?t + 4)" by blast
  have o: "opp = 1" using W(1) np by simp
  have h0: "hand_of 0 s' = [R3] @ drawn" using W(4) o k ill
    by (simp add: table_simps sample_cards)
  have h1: "hand_of 1 s' = [Y7]" using W(4) o k ill by (simp add: table_simps)
  have l: "length drawn = 4" using W(5) ill av by simp
  have pd: "pending_draw s' = 0" using W(6) o k by (simp add: table_simps)
  have ci: "current_index s' = 1" using W(3) by (simp add: table_simps)
  show ?thesis using W(2) h0 h1 l pd ci by blast
qed

text \<open>
  Claim C3 as stated fails in a position the game reaches. In \<open>exhausted_position\<close>
  the automated player, at index 1, holds red cards and card 101, a Wild Draw Four;
  red is active, the draw pile is empty and the red 3 is the only discard. The Wild
  Draw Four is played naming red with the challenge flag set, so a challenge is
  raised and the play is illegal whether judged on the colour before the play or on
  the colour named. The player draws the one card the deck can supply, the recycled
  red 3, not four.
\<close>

theorem wild_draw_four_counterexample:
  "reachable (False, exhausted_position)
   \<and> current exhausted_position = Inr 1
   \<and> rank (build_cards ! 101) = WILD_DRAW_FOUR
   \<and> build_cards ! 101 \<in> set (hand_of 1 exhausted_position)
   \<and> has_color (hand_of 1 exhausted_position) (active_color exhausted_position)
   \<and> player_had_active_color_before_wdf 1
        (placed 1 (build_cards ! 101) (Some RED) exhausted_position)
   \<and> play_card 1 (build_cards ! 101) (Some RED) exhausted_position True
       = Inr (position [] [101] ([1 ..< 8] @ evens @ [0])
                ([8 ..< 15] @ remove1 101 odds @ [15]) 0 0)
   \<and> length (hand_of 1 (position [] [101] ([1 ..< 8] @ evens @ [0])
                           ([8 ..< 15] @ remove1 101 odds @ [15]) 0 0))
       = length (remove1 (build_cards ! 101) (hand_of 1 exhausted_position)) + 1"
proof -
  have "current exhausted_position = Inr 1" by code_simp
  moreover have "rank (build_cards ! 101) = WILD_DRAW_FOUR" by code_simp
  moreover have "build_cards ! 101 \<in> set (hand_of 1 exhausted_position)" by code_simp
  moreover have "has_color (hand_of 1 exhausted_position) (active_color exhausted_position)"
    by code_simp
  moreover have "player_had_active_color_before_wdf 1
        (placed 1 (build_cards ! 101) (Some RED) exhausted_position)" by code_simp
  moreover have "play_card 1 (build_cards ! 101) (Some RED) exhausted_position True
       = Inr (position [] [101] ([1 ..< 8] @ evens @ [0])
                ([8 ..< 15] @ remove1 101 odds @ [15]) 0 0)" by code_simp
  moreover have "length (hand_of 1 (position [] [101] ([1 ..< 8] @ evens @ [0])
                           ([8 ..< 15] @ remove1 101 odds @ [15]) 0 0))
       = length (remove1 (build_cards ! 101) (hand_of 1 exhausted_position)) + 1"
    by code_simp
  ultimately show ?thesis using reachable_exhausted_position by blast
qed

text \<open>
  Claim C4. \<open>matches\<close> holds exactly when the candidate's rank is wild; or the top
  card's rank is wild and the candidate has the active colour or the top card's rank;
  or neither rank is wild and the candidate has the top card's colour or rank.
  A rank is wild exactly when it is \<open>WILD\<close> or \<open>WILD_DRAW_FOUR\<close>. The function is a
  total HOL function of its three arguments, without state or error result.
\<close>

theorem matches_iff:
  "(matches c t a \<longleftrightarrow>
      is_wild (rank c)
      \<or> (is_wild (rank t) \<and> (Some (color c) = a \<or> rank c = rank t))
      \<or> (\<not> is_wild (rank c) \<and> \<not> is_wild (rank t)
          \<and> (color c = color t \<or> rank c = rank t)))
   \<and> (is_wild r \<longleftrightarrow> r = WILD \<or> r = WILD_DRAW_FOUR)"
  by (auto simp: matches_def is_wild_iff)

text \<open>Claim C4, instances on sample cards.\<close>

theorem matches_iff_witness:
  "matches B2 W1 (Some BLUE) \<and> \<not> matches B2 W1 (Some RED)
   \<and> matches R5 B2 (Some BLUE) = False \<and> matches R3 R5 None \<and> matches WDF1 R5 None"
  using matches_iff[of B2 W1 "Some BLUE" WILD] matches_iff[of B2 W1 "Some RED" WILD]
    matches_iff[of R5 B2 "Some BLUE" WILD] matches_iff[of R3 R5 None WILD]
    matches_iff[of WDF1 R5 None WILD]
  by (simp add: sample_cards is_wild_iff)

text \<open>
  Claim C6. Reshuffling a non-empty discard pile leaves its top card as the only
  discard and appends a permutation of the other discards to the draw pile. Hence,
  with an empty draw pile and at least two discards, \<open>draw\<close> returns a card, taken from
  the discards below the top, and \<open>top_discard\<close> returns the same card before and after.
\<close>

theorem reshuffle_keeps_top_discard:
  "(discard_pile d = t # rest \<longrightarrow>
      (\<exists>rest' g'. reshuffle_from_discard d g
           = (\<lparr>draw_pile = draw_pile d @ rest', discard_pile = [t]\<rparr>, g')
         \<and> mset rest' = mset rest))
   \<and> (draw_pile d = [] \<and> 2 \<le> length (discard_pile d) \<longrightarrow>
      (\<exists>c d' g' t'. draw d g = (Some c, d', g') \<and> c \<in> set (tl (discard_pile d))
         \<and> top_discard d = Inr t' \<and> top_discard d' = Inr t' \<and> discard_pile d' = [t']))"
proof (intro conjI impI)
  assume a: "discard_pile d = t # rest"
  obtain rest' g' where sh: "shuffle rest g = (rest', g')" by (cases "shuffle rest g")
  have "mset rest' = mset rest" using shuffle_mset[of rest g] sh by simp
  then show "\<exists>rest' g'. reshuffle_from_discard d g
           = (\<lparr>draw_pile = draw_pile d @ rest', discard_pile = [t]\<rparr>, g')
         \<and> mset rest' = mset rest"
    using a sh by (simp add: reshuffle_from_discard_def)
next
  assume a: "draw_pile d = [] \<and> 2 \<le> length (discard_pile d)"
  then obtain t' r rs where dp: "discard_pile d = t' # r # rs"
    by (cases "discard_pile d"; cases "tl (discard_pile d)") auto
  from draw_recycle[of d t' r rs g] a dp obtain c cs g' where
    dr: "draw d g = (Some c, \<lparr>draw_pile = cs, discard_pile = [t']\<rparr>, g')"
    and m: "mset (c # cs) = mset (r # rs)" by blast
  have "c \<in> set (r # rs)" using m by (metis list.set_intros(1) set_mset_mset)
  then show "\<exists>c d' g' t'. draw d g = (Some c, d', g') \<and> c \<in> set (tl (discard_pile d))
         \<and> top_discard d = Inr t' \<and> top_discard d' = Inr t' \<and> discard_pile d' = [t']"
    using dr dp by (simp add: top_discard_def)
qed

text \<open>Claim C6, instance: three discards and an empty draw pile.\<close>

theorem reshuffle_keeps_top_discard_witness:
  "\<exists>c d' g'. draw \<lparr>draw_pile = [], discard_pile = [R5, Y7, G9]\<rparr> [1] = (Some c, d', g')
     \<and> c \<in> set [Y7, G9] \<and> top_discard d' = Inr R5 \<and> discard_pile d' = [R5]"
proof -
  let ?d = "\<lparr>draw_pile = [], discard_pile = [R5, Y7, G9]\<rparr>"
  have "draw_pile ?d = [] \<and> 2 \<le> length (discard_pile ?d)" by simp
  with reshuffle_keeps_top_discard[of ?d R5 "[Y7, G9]" "[1]"] obtain c d' g' t' where
    "draw ?d [1] = (Some c, d', g')" "c \<in> set (tl (discard_pile ?d))"
    "top_discard ?d = Inr t'" "top_discard d' = Inr t'" "discard_pile d' = [t']" by blast
  then show ?thesis by (auto simp: top_discard_def)
qed

text \<open>
  Claim C7. \<open>draw\<close> returns no card exactly when the draw pile is empty and the discard
  pile holds at most one card. \<open>player_draw\<close> always returns (its result type has no
  error), appends the cards drawn to the hand, and draws \<open>min n available\<close> cards: all
  \<open>n\<close> when the deck can supply them, otherwise as many as it can; the cards come out
  of the deck.
\<close>

theorem draw_none_iff_exhausted:
  "(fst (draw d g) = None \<longleftrightarrow> draw_pile d = [] \<and> length (discard_pile d) \<le> 1)
   \<and> (\<exists>drawn d' g'. player_draw n h d g = (h @ drawn, d', g')
         \<and> length drawn = min n (available d)
         \<and> deck_cards d = mset drawn + deck_cards d')"
proof -
  obtain h' d' g' where pd: "player_draw n h d g = (h', d', g')"
    by (cases "player_draw n h d g")
  from player_draw_spec[OF pd] show ?thesis using pd draw_None_iff[of d g] by auto
qed

text \<open>
  Claim C7, instances: one discard and no draw pile gives nothing; two discards give
  a card; asking for three cards when two can be supplied appends two.
\<close>

theorem draw_none_iff_exhausted_witness:
  "fst (draw \<lparr>draw_pile = [], discard_pile = [R5]\<rparr> []) = None
   \<and> fst (draw \<lparr>draw_pile = [], discard_pile = [R5, Y7]\<rparr> []) \<noteq> None
   \<and> (\<exists>drawn d' g'. player_draw 3 [G9] \<lparr>draw_pile = [B2], discard_pile = [R5, Y7]\<rparr> []
          = ([G9] @ drawn, d', g') \<and> length drawn = 2)"
proof -
  let ?d = "\<lparr>draw_pile = [B2], discard_pile = [R5, Y7]\<rparr>"
  have 1: "fst (draw \<lparr>draw_pile = [], discard_pile = [R5]\<rparr> []) = None"
    using draw_none_iff_exhausted[of "\<lparr>draw_pile = [], discard_pile = [R5]\<rparr>" "[]" 0 "[]"]
    by simp
  have 2: "fst (draw \<lparr>draw_pile = [], discard_pile = [R5, Y7]\<rparr> []) \<noteq> None"
    using draw_none_iff_exhausted[of "\<lparr>draw_pile = [], discard_pile = [R5, Y7]\<rparr>" "[]" 0 "[]"]
    by simp
  from draw_none_iff_exhausted[of ?d "[]" 3 "[G9]"] obtain drawn d' g' where
    3: "player_draw 3 [G9] ?d [] = ([G9] @ drawn, d', g')"
       "length drawn = min 3 (available ?d)" by blast
  have "length drawn = 2" using 3(2) by (simp add: available_def)
  with 1 2 3(1) show ?thesis by blast
qed

text \<open>
  Claim C8. Let the player at position \<open>p\<close> hold a REVERSE and a SKIP. Playing the
  SKIP keeps the direction and advances two steps. Playing the REVERSE flips the
  direction; with exactly two players it then advances two steps and ends on the same
  \<open>current_index\<close> as the SKIP does from the same state (for either direction, +1
  included); with three or more players it advances one step in the new direction.
\<close>

theorem reverse_vs_skip:
  assumes "p < length (players s)"
    and "cr \<in> set (hand_of p s)" and "rank cr = REVERSE"
    and "ck \<in> set (hand_of p s)" and "rank ck = SKIP"
  shows "\<exists>s1 s2. play_card p cr ch1 s f1 = Inr s1 \<and> play_card p ck ch2 s f2 = Inr s2
           \<and> direction s1 = - direction s \<and> direction s2 = direction s
           \<and> current_index s2
               = (current_index s + 2 * direction s) mod int (length (players s))
           \<and> (length (players s) = 2 \<longrightarrow>
                 current_index s1
                   = (current_index s + 2 * direction s1) mod int (length (players s))
                 \<and> current_index s1 = current_index s2)
           \<and> (3 \<le> length (players s) \<longrightarrow>
                 current_index s1
                   = (current_index s + 1 * direction s1) mod int (length (players s)))"
proof -
  have ne: "\<And>c ch. players (placed p c ch s) \<noteq> []" by (rule placed_nonempty[OF assms(1)])
  have sk: "play_card p ck ch2 s f2 =
      Inr ((placed p ck ch2 s)\<lparr>current_index :=
             (current_index s + 2 * direction s) mod int (length (players s))\<rparr>)"
    unfolding play_card_unfold using assms(4,5)
    by (simp add: advance_turn_ok[OF ne] placed_frame)
  have rv: "play_card p cr ch1 s f1 =
      Inr ((reverse (placed p cr ch1 s))\<lparr>current_index :=
             (current_index s + (if length (players s) = 2 then 2 else 1) * (- direction s))
               mod int (length (players s))\<rparr>)"
    unfolding play_card_unfold using assms(1,2,3)
    by (auto simp: advance_turn_def Let_def placed_frame reverse_def)
  have par: "(current_index s + 2 * - direction s) mod 2 = (current_index s + 2 * direction s) mod 2"
    by presburger
  show ?thesis unfolding sk rv
    using par by (simp add: placed_frame reverse_def)
qed

text \<open>Claim C8, instance: two players, direction +1, both plays end on index 0.\<close>

theorem reverse_vs_skip_witness:
  "\<exists>s1 s2. play_card 0 RREV None (table [B2] [R5] [RREV, RSKIP, G9] [Y7] 0) False = Inr s1
     \<and> play_card 0 RSKIP None (table [B2] [R5] [RREV, RSKIP, G9] [Y7] 0) False = Inr s2
     \<and> current_index s1 = 0 \<and> current_index s2 = 0
     \<and> direction s1 = - 1 \<and> direction s2 = 1"
proof -
  let ?t = "table [B2] [R5] [RREV, RSKIP, G9] [Y7] 0"
  have 1: "0 < length (players ?t)" "RREV \<in> set (hand_of 0 ?t)" "rank RREV = REVERSE"
    "RSKIP \<in> set (hand_of 0 ?t)" "rank RSKIP = SKIP"
    by (simp_all add: table_simps sample_cards)
  from reverse_vs_skip[OF 1, of None False None False] obtain s1 s2 where
    "play_card 0 RREV None ?t False = Inr s1" "play_card 0 RSKIP None ?t False = Inr s2"
    "direction s1 = - direction ?t" "direction s2 = direction ?t"
    "current_index s2 = (current_index ?t + 2 * direction ?t) mod int (length (players ?t))"
    "length (players ?t) = 2 \<longrightarrow> current_index s1 = current_index s2" by blast
  then show ?thesis by (simp add: table_simps)
qed

text \<open>
  Claim C10. Playing a card that is in the hand of player \<open>p\<close> returns a state whose
  \<open>active_color\<close> is the supplied chosen colour when the card's rank is wild, and is
  the previous \<open>active_color\<close> otherwise: the colour of a non-wild card is never
  written to \<open>active_color\<close>.
\<close>

theorem play_sets_active_color_only_for_wild:
  assumes "p < length (players s)" and "c \<in> set (hand_of p s)"
  shows "\<exists>s'. play_card p c ch s fl = Inr s'
           \<and> active_color s' = (if is_wild (rank c) then ch else active_color s)"
  using play_card_total[OF assms, of ch fl] play_card_active_color[of p c ch s fl]
  by auto

text \<open>
  Claim C10, instances: a red 3 played with blue supplied leaves red active; a wild
  played with blue supplied makes blue active.
\<close>

theorem play_sets_active_color_only_for_wild_witness:
  "(\<exists>s'. play_card 0 R3 (Some BLUE) (table [B2] [R5] [R3, W1] [Y7] 0) False = Inr s'
      \<and> active_color s' = Some RED)
   \<and> (\<exists>s'. play_card 0 W1 (Some BLUE) (table [B2] [R5] [R3, W1] [Y7] 0) False = Inr s'
      \<and> active_color s' = Some BLUE)"
  using play_sets_active_color_only_for_wild[of 0 "table [B2] [R5] [R3, W1] [Y7] 0" R3
      "Some BLUE" False]
    play_sets_active_color_only_for_wild[of 0 "table [B2] [R5] [R3, W1] [Y7] 0" W1
      "Some BLUE" False]
  by (simp add: table_simps sample_cards is_wild_iff)



text \<open>
  Claim C5. In every state the engine reaches (after the set-up of \<open>start_game\<close>, for
  any number of players, rule toggle and generator state, and after any number of
  turns with any moves) the cards of the draw pile, the discard pile and all hands
  together are exactly the cards \<open>build_cards\<close> created, each once: 108 cards, and for
  every colour and rank as many as the composition \<open>copies\<close> prescribes. A further
  turn from such a state, whatever the move, neither creates nor destroys a card.
\<close>

theorem cards_conserved:
  assumes "reachable (over, s)"
  shows "all_cards s = mset build_cards
         \<and> size (all_cards s) = 108
         \<and> (\<forall>c r. count (image_mset face (all_cards s)) (c, r) = copies c r)
         \<and> (\<forall>m over' s'. turn m s = Inr (over', s') \<longrightarrow> all_cards s' = all_cards s)"
proof -
  have a: "all_cards s = mset build_cards" using reachable_all_cards[OF assms] by simp
  have "size (mset build_cards) = length (map face build_cards)" by simp
  then have b: "size (all_cards s) = 108"
    unfolding a faces_of_build_cards by (simp add: length_faces)
  have "image_mset face (mset build_cards) = mset faces"
    using faces_of_build_cards by (metis mset_map)
  then have c: "\<forall>c r. count (image_mset face (all_cards s)) (c, r) = copies c r"
    unfolding a by (simp add: count_faces)
  have d: "\<forall>m over' s'. turn m s = Inr (over', s') \<longrightarrow> all_cards s' = all_cards s"
    using turn_all_cards by blast
  from a b c d show ?thesis by blast
qed

text \<open>
  Claim C5, instance: the position reached before the first turn of a two-player game
  when every draw of the generator is 0.
\<close>

theorem cards_conserved_witness:
  "reachable (False, first_position)
   \<and> all_cards first_position = mset build_cards
   \<and> size (all_cards first_position) = 108
   \<and> count (image_mset face (all_cards first_position)) (RED, ZERO) = 1
   \<and> count (image_mset face (all_cards first_position)) (BLUE, SKIP) = 2
   \<and> count (image_mset face (all_cards first_position)) (COLOR_WILD, WILD_DRAW_FOUR) = 4"
proof -
  note c = cards_conserved[OF reachable_first_position]
  have 1: "all_cards first_position = mset build_cards"
    and 2: "size (all_cards first_position) = 108"
    and 3: "\<And>c r. count (image_mset face (all_cards first_position)) (c, r) = copies c r"
    using c by blast+
  have 4: "copies RED ZERO = 1" "copies BLUE SKIP = 2" "copies COLOR_WILD WILD_DRAW_FOUR = 4"
    by (simp_all add: copies_def)
  show ?thesis
    using reachable_first_position 1 2 3[of RED ZERO] 3[of BLUE SKIP]
      3[of COLOR_WILD WILD_DRAW_FOUR]
    unfolding 4 by blast
qed

end
